theory Spec2Isabelle
  imports Main "HOL-Library.Multiset"
begin

section \<open>Strings\<close>

text \<open>
  Strings are lists of 8-bit code units: the JavaScript strings whose UTF-16 code units
  all lie below 256 (Latin-1). On these, \<open>String.prototype.trim\<close>,
  \<open>toLowerCase\<close> and \<open>includes\<close> are computed as the language defines them.
\<close>

definition isWhiteSpace :: "char \<Rightarrow> bool" where
  \<comment> \<open>WhiteSpace and LineTerminator below 256: TAB, LF, VT, FF, CR, SP, NBSP.\<close>
  "isWhiteSpace c = ((of_char c :: nat) \<in> {9, 10, 11, 12, 13, 32, 160})"

definition trim :: "string \<Rightarrow> string" where
  "trim s = rev (dropWhile isWhiteSpace (rev (dropWhile isWhiteSpace s)))"

definition toLowerCaseChar :: "char \<Rightarrow> char" where
  \<comment> \<open>A-Z, and the Latin-1 capitals 0xC0-0xDE without the multiplication sign 0xD7.\<close>
  "toLowerCaseChar c =
     (let n = (of_char c :: nat)
      in if (65 \<le> n \<and> n \<le> 90) \<or> (192 \<le> n \<and> n \<le> 222 \<and> n \<noteq> 215)
         then char_of (n + 32) else c)"

definition toLowerCase :: "string \<Rightarrow> string" where
  "toLowerCase s = map toLowerCaseChar s"

fun startsWith :: "string \<Rightarrow> string \<Rightarrow> bool" where
  "startsWith s [] = True"
| "startsWith [] (q # qs) = False"
| "startsWith (c # cs) (q # qs) = (c = q \<and> startsWith cs qs)"

fun includes_str :: "string \<Rightarrow> string \<Rightarrow> bool" where
  \<comment> \<open>\<open>String.prototype.includes\<close>: \<open>q\<close> occurs in \<open>s\<close> as a contiguous substring.\<close>
  "includes_str [] q = (q = [])"
| "includes_str (c # cs) q = (startsWith (c # cs) q \<or> includes_str cs q)"


section \<open>Data model\<close>

datatype priority = High | Medium | Low

text \<open>
  \<open>interface Task\<close>. \<open>id\<close> is \<open>Date.now()\<close>, an integer number of
  milliseconds; \<open>dueDate: Date | null\<close> is the time value of the Date in milliseconds
  since the epoch, or \<open>None\<close> for \<open>null\<close>. A \<open>Date\<close> without a time value
  (an invalid date) is not a value of the model.
\<close>

record task =
  task_id :: int
  task_text :: string
  completed :: bool
  category :: string
  priority :: priority
  dueDate :: "int option"
  description :: string
  expanded :: bool

definition categories :: "string list" where
  "categories = [''Personal'', ''Work'', ''Shopping'', ''Health'', ''Other'']"

datatype sortKey = ByPriority | ByDueDate

text \<open>The \<open>useState\<close> cells of the \<open>TaskManager\<close> component.\<close>

record state =
  tasks :: "task list"
  currentTask :: string
  selectedCategory :: string
  searchQuery :: string
  showNotification :: bool
  notificationMessage :: string
  selectedPriority :: priority
  selectedDueDate :: "int option"
  taskDescription :: string
  sortBy :: sortKey
  mobileOpen :: bool

definition initial :: "task list \<Rightarrow> state" where
  "initial loaded =
     \<lparr> tasks = loaded, currentTask = [], selectedCategory = ''All'', searchQuery = [],
       showNotification = False, notificationMessage = [], selectedPriority = Medium,
       selectedDueDate = None, taskDescription = [], sortBy = ByPriority,
       mobileOpen = False \<rparr>"


section \<open>Task store operations\<close>

definition showSuccessMessage :: "string \<Rightarrow> state \<Rightarrow> state" where
  "showSuccessMessage message s = s\<lparr> notificationMessage := message, showNotification := True \<rparr>"

definition newTask :: "int \<Rightarrow> state \<Rightarrow> task" where
  "newTask now s =
     \<lparr> task_id = now,
       task_text = trim (currentTask s),
       completed = False,
       category = (if selectedCategory s = ''All'' then ''Other'' else selectedCategory s),
       priority = selectedPriority s,
       dueDate = selectedDueDate s,
       description = taskDescription s,
       expanded = False \<rparr>"

text \<open>\<open>handleAddTask\<close>; \<open>now\<close> is what \<open>Date.now()\<close> returns at the call.\<close>

definition handleAddTask :: "int \<Rightarrow> state \<Rightarrow> state" where
  "handleAddTask now s =
     (if trim (currentTask s) \<noteq> []
      then showSuccessMessage ''Task added successfully!''
             (s\<lparr> tasks := tasks s @ [newTask now s],
                currentTask := [],
                taskDescription := [],
                selectedDueDate := None \<rparr>)
      else s)"

definition handleDeleteTask :: "int \<Rightarrow> state \<Rightarrow> state" where
  "handleDeleteTask taskId s =
     showSuccessMessage ''Task deleted successfully!''
       (s\<lparr> tasks := filter (\<lambda>t. task_id t \<noteq> taskId) (tasks s) \<rparr>)"

definition handleToggleComplete :: "int \<Rightarrow> state \<Rightarrow> state" where
  "handleToggleComplete taskId s =
     showSuccessMessage ''Task status updated!''
       (s\<lparr> tasks := map (\<lambda>t. if task_id t = taskId then t\<lparr> completed := \<not> completed t \<rparr> else t)
                        (tasks s) \<rparr>)"

definition handleToggleExpand :: "int \<Rightarrow> state \<Rightarrow> state" where
  "handleToggleExpand taskId s =
     s\<lparr> tasks := map (\<lambda>t. if task_id t = taskId then t\<lparr> expanded := \<not> expanded t \<rparr> else t)
                      (tasks s) \<rparr>"

text \<open>
  The gestures of the interface. \<open>SetSelectedCategory\<close> is both the drawer's buttons
  (\<open>All\<close>, \<open>High Priority\<close>, \<open>Due Today\<close> and the five categories) and the form's
  category menu (\<open>All\<close> and the five categories): both write the one cell
  \<open>selectedCategory\<close>. \<open>AddTask now\<close> is the Add button or the Enter key.
\<close>

datatype event =
    SetCurrentTask string
  | SetSelectedCategory string
  | SetSearchQuery string
  | SetSelectedPriority priority
  | SetSelectedDueDate "int option"
  | SetTaskDescription string
  | SetSortBy sortKey
  | ToggleDrawer
  | CloseNotification
  | AddTask int
  | DeleteTask int
  | ToggleComplete int
  | ToggleExpand int

definition drawerSelections :: "string list" where
  "drawerSelections = [''All'', ''High Priority'', ''Due Today''] @ categories"

fun offered :: "event \<Rightarrow> bool" where
  "offered (SetSelectedCategory c) = (c \<in> set drawerSelections)"
| "offered e = True"

fun step :: "state \<Rightarrow> event \<Rightarrow> state" where
  "step s (SetCurrentTask v) = s\<lparr> currentTask := v \<rparr>"
| "step s (SetSelectedCategory c) = s\<lparr> selectedCategory := c \<rparr>"
| "step s (SetSearchQuery q) = s\<lparr> searchQuery := q \<rparr>"
| "step s (SetSelectedPriority p) = s\<lparr> selectedPriority := p \<rparr>"
| "step s (SetSelectedDueDate d) = s\<lparr> selectedDueDate := d \<rparr>"
| "step s (SetTaskDescription v) = s\<lparr> taskDescription := v \<rparr>"
| "step s (SetSortBy k) = s\<lparr> sortBy := k \<rparr>"
| "step s ToggleDrawer = s\<lparr> mobileOpen := \<not> mobileOpen s \<rparr>"
| "step s CloseNotification = s\<lparr> showNotification := False \<rparr>"
| "step s (AddTask now) = handleAddTask now s"
| "step s (DeleteTask i) = handleDeleteTask i s"
| "step s (ToggleComplete i) = handleToggleComplete i s"
| "step s (ToggleExpand i) = handleToggleExpand i s"

definition run :: "state \<Rightarrow> event list \<Rightarrow> state" where
  "run s es = foldl step s es"

text \<open>The timestamps that the adds of a run read, in order.\<close>

fun addTimes :: "event list \<Rightarrow> int list" where
  "addTimes [] = []"
| "addTimes (AddTask now # es) = now # addTimes es"
| "addTimes (e # es) = addTimes es"


section \<open>View engine\<close>

definition matchesSearch :: "string \<Rightarrow> task \<Rightarrow> bool" where
  "matchesSearch q t = includes_str (toLowerCase (task_text t)) (toLowerCase q)"

definition matchesCategory :: "string \<Rightarrow> task \<Rightarrow> bool" where
  "matchesCategory sel t = (sel = ''All'' \<or> category t = sel)"

definition filtered :: "task list \<Rightarrow> string \<Rightarrow> string \<Rightarrow> task list" where
  "filtered ts q sel = filter (\<lambda>t. matchesSearch q t \<and> matchesCategory sel t) ts"

fun priorityOrder :: "priority \<Rightarrow> int" where
  "priorityOrder High = 0"
| "priorityOrder Medium = 1"
| "priorityOrder Low = 2"

text \<open>The comparator handed to \<open>sort\<close>, for either value of \<open>sortBy\<close>.\<close>

definition compareTasks :: "sortKey \<Rightarrow> task \<Rightarrow> task \<Rightarrow> int" where
  "compareTasks k a b =
     (case k of
        ByPriority \<Rightarrow> priorityOrder (priority a) - priorityOrder (priority b)
      | ByDueDate \<Rightarrow>
          (case dueDate a of
             None \<Rightarrow> 1
           | Some ta \<Rightarrow> (case dueDate b of None \<Rightarrow> - 1 | Some tb \<Rightarrow> ta - tb)))"

text \<open>
  \<open>Array.prototype.sort(comparefn)\<close>. ECMAScript fixes its result when \<open>comparefn\<close>
  is a consistent comparator: the stable sort, whichever algorithm the engine runs. For
  any other comparator the order is implementation-defined. The model is an insertion
  sort that takes the items from left to right and moves each one left past the elements
  \<open>swap\<close> with \<open>comparefn(swap, item) > 0\<close>; the part already sorted is kept with its
  last element first.
\<close>

fun insertItem :: "('a \<Rightarrow> 'a \<Rightarrow> int) \<Rightarrow> 'a \<Rightarrow> 'a list \<Rightarrow> 'a list" where
  "insertItem comparefn item [] = [item]"
| "insertItem comparefn item (swap # rest) =
     (if comparefn swap item \<le> 0 then item # swap # rest
      else swap # insertItem comparefn item rest)"

definition array_sort :: "('a \<Rightarrow> 'a \<Rightarrow> int) \<Rightarrow> 'a list \<Rightarrow> 'a list" where
  "array_sort comparefn xs = rev (foldl (\<lambda>sorted_part item. insertItem comparefn item sorted_part) [] xs)"

text \<open>
  The same insertion sort with the arguments of the comparator the other way round: an
  item moves left past \<open>swap\<close> while \<open>comparefn(item, swap) < 0\<close>. On a consistent
  comparator it returns what \<open>array_sort\<close> returns.
\<close>

fun insertItem_rl :: "('a \<Rightarrow> 'a \<Rightarrow> int) \<Rightarrow> 'a \<Rightarrow> 'a list \<Rightarrow> 'a list" where
  "insertItem_rl comparefn item [] = [item]"
| "insertItem_rl comparefn item (swap # rest) =
     (if comparefn item swap < 0 then swap # insertItem_rl comparefn item rest
      else item # swap # rest)"

definition array_sort_rl :: "('a \<Rightarrow> 'a \<Rightarrow> int) \<Rightarrow> 'a list \<Rightarrow> 'a list" where
  "array_sort_rl comparefn xs =
     rev (foldl (\<lambda>sorted_part item. insertItem_rl comparefn item sorted_part) [] xs)"

definition sortTasks :: "sortKey \<Rightarrow> task list \<Rightarrow> task list" where
  "sortTasks k xs = array_sort (compareTasks k) xs"

definition filteredAndSortedTasks :: "task list \<Rightarrow> string \<Rightarrow> string \<Rightarrow> sortKey \<Rightarrow> task list" where
  "filteredAndSortedTasks ts q sel k = sortTasks k (filtered ts q sel)"


text \<open>
  Aggregate counts. \<open>now\<close> is the instant of the call; local time is UTC plus a fixed
  \<open>offset\<close> in milliseconds (a zone without daylight-saving changes).
  \<open>startOfToday()\<close> of date-fns is local midnight of the current day, and
  \<open>isBefore\<close> compares time values.
\<close>

definition msPerDay :: int where
  "msPerDay = 86400000"

definition localDay :: "int \<Rightarrow> int \<Rightarrow> int" where
  \<comment> \<open>The number of the local calendar day that the instant \<open>t\<close> falls on.\<close>
  "localDay offset t = (t + offset) div msPerDay"

definition startOfToday :: "int \<Rightarrow> int \<Rightarrow> int" where
  "startOfToday offset now = localDay offset now * msPerDay - offset"

definition isBefore :: "int \<Rightarrow> int \<Rightarrow> bool" where
  "isBefore date dateToCompare = (date < dateToCompare)"

definition isTaskOverdue :: "int \<Rightarrow> int \<Rightarrow> int option \<Rightarrow> bool" where
  "isTaskOverdue offset now d =
     (case d of None \<Rightarrow> False | Some t \<Rightarrow> isBefore t (startOfToday offset now))"

record taskCounts =
  total :: nat
  completed_count :: nat
  overdue :: nat
  highPriority :: nat

definition getTaskCounts :: "int \<Rightarrow> int \<Rightarrow> task list \<Rightarrow> taskCounts" where
  "getTaskCounts offset now ts =
     \<lparr> total = length ts,
       completed_count = length (filter (\<lambda>t. completed t) ts),
       overdue = length (filter (\<lambda>t. dueDate t \<noteq> None \<and> isTaskOverdue offset now (dueDate t)) ts),
       highPriority = length (filter (\<lambda>t. priority t = High \<and> \<not> completed t) ts) \<rparr>"


text \<open>
  The derived view on the heap. An array is a cell of the heap, addressed by its index;
  the cell holds the array's elements in order. \<open>Array.prototype.filter\<close> allocates a
  new array and returns its address; \<open>Array.prototype.sort\<close> rearranges the array it
  is called on and returns that same address. Neither writes to a task object.
\<close>

type_synonym heap = "task list list"

definition array_filter :: "heap \<Rightarrow> nat \<Rightarrow> (task \<Rightarrow> bool) \<Rightarrow> heap \<times> nat" where
  "array_filter h a p = (h @ [filter p (h ! a)], length h)"

definition array_sort_in_place :: "heap \<Rightarrow> nat \<Rightarrow> (task \<Rightarrow> task \<Rightarrow> int) \<Rightarrow> heap \<times> nat" where
  "array_sort_in_place h a comparefn = (h[a := array_sort comparefn (h ! a)], a)"

definition filteredAndSortedTasks_heap ::
  "heap \<Rightarrow> nat \<Rightarrow> string \<Rightarrow> string \<Rightarrow> sortKey \<Rightarrow> heap \<times> nat" where
  "filteredAndSortedTasks_heap h tasksRef q sel k =
     (case array_filter h tasksRef (\<lambda>t. matchesSearch q t \<and> matchesCategory sel t) of
        (h1, filteredRef) \<Rightarrow> array_sort_in_place h1 filteredRef (compareTasks k))"

text \<open>The entries of the form's category menu: \<open>All Categories\<close> and the five categories.\<close>

definition menuSelections :: "string list" where
  "menuSelections = ''All'' # categories"


section \<open>JSON\<close>

text \<open>
  The values of the language that the persisted state can hold. A string of a value is
  the list of its UTF-16 code units (a JSON text can name a unit above 255 by an escape);
  \<open>js\<close> gives the units of a string of the model. The members of an object stand in
  the order in which their keys first occur in the text, a later occurrence of a key
  replacing the value (the place of keys that are array indices in the engine's
  enumeration order is not modelled). A number is a decimal:
  \<open>JNum m d\<close> is \<open>m / 10^d\<close>, with \<open>d = 0\<close> or \<open>m\<close> not a multiple of ten, so
  that equal numbers are equal values; rounding to binary floating point is not
  modelled. \<open>JDate t\<close> is a \<open>Date\<close> object with time value \<open>t\<close>.
\<close>

datatype jsval =
    JNull
  | JBool bool
  | JNum int nat
  | JStr "nat list"
  | JArr "jsval list"
  | JObj "(nat list \<times> jsval) list"
  | JDate int

definition js :: "string \<Rightarrow> nat list" where
  "js s = map of_char s"

datatype 'a parsed = Parsed 'a string | Malformed | OutOfFuel

definition isJsonWhiteSpace :: "char \<Rightarrow> bool" where
  "isJsonWhiteSpace c = ((of_char c :: nat) \<in> {9, 10, 13, 32})"

definition skipWs :: "string \<Rightarrow> string" where
  "skipWs cs = dropWhile isJsonWhiteSpace cs"

definition isDigit :: "char \<Rightarrow> bool" where
  "isDigit c = (48 \<le> (of_char c :: nat) \<and> (of_char c :: nat) \<le> 57)"

definition digitsValue :: "string \<Rightarrow> nat" where
  "digitsValue ds = foldl (\<lambda>n c. 10 * n + (of_char c - 48)) 0 ds"

definition hexValue :: "char \<Rightarrow> nat option" where
  "hexValue c =
     (let n = (of_char c :: nat)
      in if 48 \<le> n \<and> n \<le> 57 then Some (n - 48)
         else if 65 \<le> n \<and> n \<le> 70 then Some (n - 55)
         else if 97 \<le> n \<and> n \<le> 102 then Some (n - 87)
         else None)"

definition unescape :: "char \<Rightarrow> nat option" where
  "unescape e =
     (if e = CHR 0x22 then Some 34
      else if e = CHR 0x5C then Some 92
      else if e = CHR ''/'' then Some 47
      else if e = CHR ''b'' then Some 8
      else if e = CHR ''f'' then Some 12
      else if e = CHR ''n'' then Some 10
      else if e = CHR ''r'' then Some 13
      else if e = CHR ''t'' then Some 9
      else None)"

text \<open>
  The characters of a string after its opening quote, up to the closing quote:
  \<open>parseChars\<close> returns the code units and the text after the closing quote, or
  \<open>None\<close> when the string is not well formed.
\<close>

definition hex4 :: "char \<Rightarrow> char \<Rightarrow> char \<Rightarrow> char \<Rightarrow> nat option" where
  "hex4 h1 h2 h3 h4 =
     (case (hexValue h1, hexValue h2, hexValue h3, hexValue h4) of
        (Some a, Some b, Some c, Some d) \<Rightarrow> Some (((a * 16 + b) * 16 + c) * 16 + d)
      | _ \<Rightarrow> None)"

fun parseChars :: "string \<Rightarrow> (nat list \<times> string) option" where
  "parseChars [] = None"
| "parseChars (c # cs) =
     (if c = CHR 0x22 then Some ([], cs)
      else if c = CHR 0x5C then
        (case cs of
           [] \<Rightarrow> None
         | e # r \<Rightarrow>
             if e = CHR ''u'' then
               (case r of
                  h1 # h2 # h3 # h4 # r' \<Rightarrow>
                    (case hex4 h1 h2 h3 h4 of
                       Some u \<Rightarrow> map_option (\<lambda>(s, rest). (u # s, rest)) (parseChars r')
                     | None \<Rightarrow> None)
                | _ \<Rightarrow> None)
             else
               (case unescape e of
                  None \<Rightarrow> None
                | Some u \<Rightarrow> map_option (\<lambda>(s, rest). (u # s, rest)) (parseChars r)))
      else if (of_char c :: nat) < 32 then None
      else map_option (\<lambda>(s, rest). (of_char c # s, rest)) (parseChars cs))"

text \<open>
  A number: an optional minus sign, the integer part (a single \<open>0\<close>, or digits that
  start with a digit from 1 to 9), an optional fraction and an optional exponent.
\<close>

fun normalise :: "int \<Rightarrow> nat \<Rightarrow> jsval" where
  "normalise m 0 = JNum m 0"
| "normalise m (Suc d) = (if m mod 10 = 0 then normalise (m div 10) d else JNum m (Suc d))"

definition makeNumber :: "bool \<Rightarrow> string \<Rightarrow> string \<Rightarrow> int \<Rightarrow> jsval" where
  "makeNumber negative ip fp ex =
     (let m = (if negative then - int (digitsValue (ip @ fp)) else int (digitsValue (ip @ fp)));
          e = ex - int (length fp)
      in if 0 \<le> e then JNum (m * 10 ^ nat e) 0 else normalise m (nat (- e)))"

definition takeSign :: "string \<Rightarrow> bool \<times> string" where
  "takeSign cs =
     (case cs of
        [] \<Rightarrow> (False, [])
      | c # r \<Rightarrow> if c = CHR ''-'' then (True, r) else (False, cs))"

definition takeInt :: "string \<Rightarrow> (string \<times> string) option" where
  "takeInt cs =
     (case cs of
        [] \<Rightarrow> None
      | c # r \<Rightarrow>
          if c = CHR ''0'' then Some ([c], r)
          else if isDigit c then Some (takeWhile isDigit cs, dropWhile isDigit cs)
          else None)"

definition takeFraction :: "string \<Rightarrow> (string \<times> string) option" where
  "takeFraction cs =
     (case cs of
        [] \<Rightarrow> Some ([], [])
      | c # r \<Rightarrow>
          if c = CHR ''.'' then
            (if takeWhile isDigit r = [] then None
             else Some (takeWhile isDigit r, dropWhile isDigit r))
          else Some ([], cs))"

definition takeExponent :: "string \<Rightarrow> (int \<times> string) option" where
  "takeExponent cs =
     (case cs of
        [] \<Rightarrow> Some (0, [])
      | c # r \<Rightarrow>
          if c = CHR ''e'' \<or> c = CHR ''E'' then
            (case (case r of
                     [] \<Rightarrow> (False, [])
                   | s # r' \<Rightarrow>
                       if s = CHR ''-'' then (True, r')
                       else if s = CHR ''+'' then (False, r')
                       else (False, r)) of
               (negativeExponent, r1) \<Rightarrow>
                 if takeWhile isDigit r1 = [] then None
                 else Some (if negativeExponent then - int (digitsValue (takeWhile isDigit r1))
                            else int (digitsValue (takeWhile isDigit r1)),
                            dropWhile isDigit r1))
          else Some (0, cs))"

definition parseNumber :: "string \<Rightarrow> (jsval \<times> string) option" where
  "parseNumber cs =
     (case takeSign cs of
        (negative, cs1) \<Rightarrow>
          (case takeInt cs1 of
             None \<Rightarrow> None
           | Some (ip, cs2) \<Rightarrow>
               (case takeFraction cs2 of
                  None \<Rightarrow> None
                | Some (fp, cs3) \<Rightarrow>
                    (case takeExponent cs3 of
                       None \<Rightarrow> None
                     | Some (ex, cs4) \<Rightarrow> Some (makeNumber negative ip fp ex, cs4)))))"

text \<open>
  A value, the elements of an array after its opening bracket, and the members of an
  object after its opening brace. The first argument is fuel: every call passes one less
  to the calls it makes, and \<open>JSON_parse\<close> starts with more than the text can use
  up, so that \<open>OutOfFuel\<close> is never its outcome.
\<close>

fun putMember :: "nat list \<Rightarrow> jsval \<Rightarrow> (nat list \<times> jsval) list \<Rightarrow> (nat list \<times> jsval) list" where
  "putMember k v [] = [(k, v)]"
| "putMember k v ((k', v') # ms) = (if k = k' then (k, v) # ms else (k', v') # putMember k v ms)"

fun parseValue :: "nat \<Rightarrow> string \<Rightarrow> jsval parsed"
  and parseElements :: "nat \<Rightarrow> string \<Rightarrow> jsval list parsed"
  and parseMembers :: "nat \<Rightarrow> string \<Rightarrow> (nat list \<times> jsval) list parsed"
where
  "parseValue 0 cs = OutOfFuel"
| "parseValue (Suc n) cs =
     (case cs of
        [] \<Rightarrow> Malformed
      | c # r \<Rightarrow>
          if c = CHR ''['' then
            (case skipWs r of
               [] \<Rightarrow> Malformed
             | c' # r' \<Rightarrow>
                 if c' = CHR '']'' then Parsed (JArr []) r'
                 else (case parseElements n (c' # r') of
                         Parsed vs rest \<Rightarrow> Parsed (JArr vs) rest
                       | Malformed \<Rightarrow> Malformed
                       | OutOfFuel \<Rightarrow> OutOfFuel))
          else if c = CHR 0x7B then
            (case skipWs r of
               [] \<Rightarrow> Malformed
             | c' # r' \<Rightarrow>
                 if c' = CHR 0x7D then Parsed (JObj []) r'
                 else (case parseMembers n (c' # r') of
                         Parsed ms rest \<Rightarrow> Parsed (JObj (foldl (\<lambda>acc (k, v). putMember k v acc) [] ms)) rest
                       | Malformed \<Rightarrow> Malformed
                       | OutOfFuel \<Rightarrow> OutOfFuel))
          else if c = CHR 0x22 then
            (case parseChars r of
               Some (s, rest) \<Rightarrow> Parsed (JStr s) rest
             | None \<Rightarrow> Malformed)
          else if startsWith cs ''true'' then Parsed (JBool True) (drop 4 cs)
          else if startsWith cs ''false'' then Parsed (JBool False) (drop 5 cs)
          else if startsWith cs ''null'' then Parsed JNull (drop 4 cs)
          else (case parseNumber cs of
                  Some (v, rest) \<Rightarrow> Parsed v rest
                | None \<Rightarrow> Malformed))"
| "parseElements 0 cs = OutOfFuel"
| "parseElements (Suc n) cs =
     (case parseValue n cs of
        Parsed v rest \<Rightarrow>
          (case skipWs rest of
             [] \<Rightarrow> Malformed
           | c # r \<Rightarrow>
               if c = CHR '','' then
                 (case parseElements n (skipWs r) of
                    Parsed vs rest' \<Rightarrow> Parsed (v # vs) rest'
                  | Malformed \<Rightarrow> Malformed
                  | OutOfFuel \<Rightarrow> OutOfFuel)
               else if c = CHR '']'' then Parsed [v] r
               else Malformed)
      | Malformed \<Rightarrow> Malformed
      | OutOfFuel \<Rightarrow> OutOfFuel)"
| "parseMembers 0 cs = OutOfFuel"
| "parseMembers (Suc n) cs =
     (case cs of
        [] \<Rightarrow> Malformed
      | q # r0 \<Rightarrow>
          if q \<noteq> CHR 0x22 then Malformed
          else
            (case parseChars r0 of
               None \<Rightarrow> Malformed
             | Some (k, r1) \<Rightarrow>
                 (case skipWs r1 of
                    [] \<Rightarrow> Malformed
                  | colon # r2 \<Rightarrow>
                      if colon \<noteq> CHR '':'' then Malformed
                      else
                        (case parseValue n (skipWs r2) of
                           Parsed v rest \<Rightarrow>
                             (case skipWs rest of
                                [] \<Rightarrow> Malformed
                              | c # r \<Rightarrow>
                                  if c = CHR '','' then
                                    (case parseMembers n (skipWs r) of
                                       Parsed ms rest' \<Rightarrow> Parsed ((k, v) # ms) rest'
                                     | Malformed \<Rightarrow> Malformed
                                     | OutOfFuel \<Rightarrow> OutOfFuel)
                                  else if c = CHR 0x7D then Parsed [(k, v)] r
                                  else Malformed)
                         | Malformed \<Rightarrow> Malformed
                         | OutOfFuel \<Rightarrow> OutOfFuel))))"

datatype error = SyntaxError

definition JSON_parse :: "string \<Rightarrow> error + jsval" where
  "JSON_parse text =
     (case parseValue (2 * length text + 1) (skipWs text) of
        Parsed v rest \<Rightarrow> if skipWs rest = [] then Inr v else Inl SyntaxError
      | Malformed \<Rightarrow> Inl SyntaxError
      | OutOfFuel \<Rightarrow> Inl SyntaxError)"


section \<open>Persistence\<close>

text \<open>
  \<open>JSON.stringify(tasks)\<close> for a collection of tasks: the members of each object in the
  order of the object literal in \<open>handleAddTask\<close>, strings quoted as
  \<open>QuoteJSONString\<close> does, the id in decimal digits (the notation of every integer
  below \<open>10^21\<close>), and a \<open>Date\<close> as the string its \<open>toJSON\<close> gives, which is
  \<open>toISOString\<close>.
\<close>

definition hexDigit :: "nat \<Rightarrow> char" where
  "hexDigit n = (if n < 10 then char_of (48 + n) else char_of (87 + n))"

definition quoteJSONChar :: "char \<Rightarrow> string" where
  "quoteJSONChar c =
     (let n = (of_char c :: nat)
      in if n = 8 then [CHR 0x5C, CHR ''b'']
         else if n = 9 then [CHR 0x5C, CHR ''t'']
         else if n = 10 then [CHR 0x5C, CHR ''n'']
         else if n = 12 then [CHR 0x5C, CHR ''f'']
         else if n = 13 then [CHR 0x5C, CHR ''r'']
         else if n = 34 then [CHR 0x5C, CHR 0x22]
         else if n = 92 then [CHR 0x5C, CHR 0x5C]
         else if n < 32 then [CHR 0x5C, CHR ''u'', CHR ''0'', CHR ''0'', hexDigit (n div 16), hexDigit (n mod 16)]
         else [c])"

definition quoteJSON :: "string \<Rightarrow> string" where
  "quoteJSON s = CHR 0x22 # concat (map quoteJSONChar s) @ [CHR 0x22]"

fun digits :: "nat \<Rightarrow> string" where
  "digits n = (if n < 10 then [char_of (48 + n)] else digits (n div 10) @ [char_of (48 + n mod 10)])"

declare digits.simps [simp del]

definition decimal :: "int \<Rightarrow> string" where
  "decimal i = (if i < 0 then CHR ''-'' # digits (nat (- i)) else digits (nat i))"

definition padStart :: "nat \<Rightarrow> string \<Rightarrow> string" where
  "padStart n s = replicate (n - length s) (CHR ''0'') @ s"

text \<open>The proleptic Gregorian date of a day number (days since 1970-01-01).\<close>

definition civil :: "int \<Rightarrow> int \<times> int \<times> int" where
  "civil day =
     (let z = day + 719468;
          era = z div 146097;
          doe = z - era * 146097;
          yoe = (doe - doe div 1460 + doe div 36524 - doe div 146096) div 365;
          doy = doe - (365 * yoe + yoe div 4 - yoe div 100);
          mp = (5 * doy + 2) div 153;
          d = doy - (153 * mp + 2) div 5 + 1;
          m = (if mp < 10 then mp + 3 else mp - 9);
          y = yoe + era * 400 + (if m \<le> 2 then 1 else 0)
      in (y, m, d))"

definition toISOString :: "int \<Rightarrow> string" where
  "toISOString t =
     (let ms = t mod msPerDay in
      case civil (t div msPerDay) of
        (y, m, d) \<Rightarrow>
          (if 0 \<le> y \<and> y \<le> 9999 then padStart 4 (digits (nat y))
           else (if y < 0 then ''-'' else ''+'') @ padStart 6 (digits (nat \<bar>y\<bar>)))
          @ ''-'' @ padStart 2 (digits (nat m))
          @ ''-'' @ padStart 2 (digits (nat d))
          @ ''T'' @ padStart 2 (digits (nat (ms div 3600000)))
          @ '':'' @ padStart 2 (digits (nat (ms div 60000 mod 60)))
          @ '':'' @ padStart 2 (digits (nat (ms div 1000 mod 60)))
          @ ''.'' @ padStart 3 (digits (nat (ms mod 1000)))
          @ ''Z'')"

fun join :: "string \<Rightarrow> string list \<Rightarrow> string" where
  "join sep [] = []"
| "join sep [x] = x"
| "join sep (x # y # ys) = x @ sep @ join sep (y # ys)"

fun priorityName :: "priority \<Rightarrow> string" where
  "priorityName High = ''High''"
| "priorityName Medium = ''Medium''"
| "priorityName Low = ''Low''"

definition stringifyTask :: "task \<Rightarrow> string" where
  "stringifyTask t =
     ''{'' @ quoteJSON ''id'' @ '':'' @ decimal (task_id t)
     @ '','' @ quoteJSON ''text'' @ '':'' @ quoteJSON (task_text t)
     @ '','' @ quoteJSON ''completed'' @ '':'' @ (if completed t then ''true'' else ''false'')
     @ '','' @ quoteJSON ''category'' @ '':'' @ quoteJSON (category t)
     @ '','' @ quoteJSON ''priority'' @ '':'' @ quoteJSON (priorityName (priority t))
     @ '','' @ quoteJSON ''dueDate'' @ '':''
       @ (case dueDate t of None \<Rightarrow> ''null'' | Some d \<Rightarrow> quoteJSON (toISOString d))
     @ '','' @ quoteJSON ''description'' @ '':'' @ quoteJSON (description t)
     @ '','' @ quoteJSON ''expanded'' @ '':'' @ (if expanded t then ''true'' else ''false'')
     @ ''}''"

definition JSON_stringify :: "task list \<Rightarrow> string" where
  "JSON_stringify ts = ''['' @ join '','' (map stringifyTask ts) @ '']''"

text \<open>
  The object of a task as a value: \<open>task_val\<close> is the object in the store, with a
  \<open>Date\<close> as the due date; \<open>task_val_with\<close> leaves open what stands for the date.
\<close>

definition task_val_with :: "(int \<Rightarrow> jsval) \<Rightarrow> task \<Rightarrow> jsval" where
  "task_val_with date t =
     JObj [(js ''id'', JNum (task_id t) 0),
           (js ''text'', JStr (js (task_text t))),
           (js ''completed'', JBool (completed t)),
           (js ''category'', JStr (js (category t))),
           (js ''priority'', JStr (js (priorityName (priority t)))),
           (js ''dueDate'', (case dueDate t of None \<Rightarrow> JNull | Some d \<Rightarrow> date d)),
           (js ''description'', JStr (js (description t))),
           (js ''expanded'', JBool (expanded t))]"

definition task_val :: "task \<Rightarrow> jsval" where
  "task_val t = task_val_with JDate t"

text \<open>
  The item of \<open>localStorage\<close> is \<open>None\<close> when \<open>getItem\<close> gives \<open>null\<close>.
  The effect on \<open>tasks\<close> writes the item with \<open>setItem\<close>; the two
  \<open>useState\<close> initialisers read the items. Nothing in the two components catches
  what \<open>JSON.parse\<close> throws, and the value it returns is used as it is.
\<close>

definition save_tasks :: "task list \<Rightarrow> string option" where
  "save_tasks ts = Some (JSON_stringify ts)"

definition load_tasks :: "string option \<Rightarrow> error + jsval" where
  "load_tasks savedTasks =
     (case savedTasks of
        None \<Rightarrow> Inr (JArr [])
      | Some s \<Rightarrow> if s = [] then Inr (JArr []) else JSON_parse s)"

definition load_theme :: "string option \<Rightarrow> error + jsval" where
  "load_theme savedTheme =
     (case savedTheme of
        None \<Rightarrow> Inr (JBool False)
      | Some s \<Rightarrow> if s = [] then Inr (JBool False) else JSON_parse s)"

text \<open>
  Startup: \<open>App\<close> is rendered first and reads the theme, \<open>TaskManager\<close> is
  rendered inside it and reads the tasks.
\<close>

definition startup :: "string option \<Rightarrow> string option \<Rightarrow> error + (jsval \<times> jsval)" where
  "startup savedTheme savedTasks =
     (case load_theme savedTheme of
        Inl e \<Rightarrow> Inl e
      | Inr isDarkMode \<Rightarrow>
          (case load_tasks savedTasks of
             Inl e \<Rightarrow> Inl e
           | Inr ts \<Rightarrow> Inr (isDarkMode, ts)))"


section \<open>Properties of the string functions\<close>

lemma dropWhile_all_iff:
  "(\<forall>c \<in> set (dropWhile P xs). P c) \<longleftrightarrow> (\<forall>c \<in> set xs. P c)"
  by (induction xs) auto

lemma trim_empty_iff: "trim s = [] \<longleftrightarrow> (\<forall>c \<in> set s. isWhiteSpace c)"
  by (simp add: trim_def dropWhile_all_iff)


section \<open>Adding a task\<close>

text \<open>
  C8. For every title that is empty or consists of white space only, \<open>handleAddTask\<close>
  returns the state it was given: the task collection, the draft fields and the
  notification cells are all unchanged, so no task is created and no notification is
  raised.
\<close>

theorem add_blank_title_noop:
  assumes "\<forall>c \<in> set (currentTask s). isWhiteSpace c"
  shows "handleAddTask now s = s"
  using assms by (simp add: handleAddTask_def trim_empty_iff)

theorem add_blank_title_noop_witness:
  "handleAddTask 7 ((initial [])\<lparr> currentTask := [CHR '' '', CHR 0x09, CHR '' ''] \<rparr>)
     = (initial [])\<lparr> currentTask := [CHR '' '', CHR 0x09, CHR '' ''] \<rparr>
   \<and> tasks (handleAddTask 7 ((initial [])\<lparr> currentTask := [CHR '' '', CHR 0x09, CHR '' ''] \<rparr>)) = []
   \<and> \<not> showNotification (handleAddTask 7 ((initial [])\<lparr> currentTask := [CHR '' '', CHR 0x09, CHR '' ''] \<rparr>))"
proof -
  have ws: "\<forall>c \<in> set (currentTask ((initial [])\<lparr> currentTask := [CHR '' '', CHR 0x09, CHR '' ''] \<rparr>)).
              isWhiteSpace c"
    by (simp add: isWhiteSpace_def)
  show ?thesis
    using add_blank_title_noop [OF ws, of 7] by (simp add: initial_def)
qed

section \<open>Sorting\<close>

lemma mset_insertItem: "mset (insertItem cmp x ys) = add_mset x (mset ys)"
  by (induction ys) auto

lemma set_insertItem: "set (insertItem cmp x ys) = insert x (set ys)"
  by (induction ys) auto

lemma insertItem_descending:
  assumes key: "\<And>a b. (cmp a b \<le> 0) = (key a \<le> (key b :: int))"
    and "sorted_wrt (\<lambda>a b. key b \<le> key a) ys"
  shows "sorted_wrt (\<lambda>a b. key b \<le> key a) (insertItem cmp x ys)"
  using assms(2)
proof (induction ys)
  case Nil
  then show ?case by simp
next
  case (Cons y ys)
  show ?case
  proof (cases "cmp y x \<le> 0")
    case True
    then have "key y \<le> key x" by (simp add: key)
    with Cons.prems True show ?thesis by fastforce
  next
    case False
    then have "key x \<le> key y" using key [of y x] by simp
    with Cons False show ?thesis by (auto simp: set_insertItem)
  qed
qed

lemma filter_insertItem:
  assumes key: "\<And>a b. (cmp a b \<le> 0) = (key a \<le> (key b :: int))"
  shows "filter (\<lambda>y. key y = k) (insertItem cmp x ys)
         = (if key x = k then x # filter (\<lambda>y. key y = k) ys else filter (\<lambda>y. key y = k) ys)"
  by (induction ys) (auto simp: key)

lemma mset_insert_all:
  "mset (foldl (\<lambda>acc item. insertItem cmp item acc) acc xs) = mset acc + mset xs"
  by (induction xs arbitrary: acc) (auto simp: mset_insertItem)

lemma descending_insert_all:
  assumes key: "\<And>a b. (cmp a b \<le> 0) = (key a \<le> (key b :: int))"
    and "sorted_wrt (\<lambda>a b. key b \<le> key a) acc"
  shows "sorted_wrt (\<lambda>a b. key b \<le> key a) (foldl (\<lambda>acc item. insertItem cmp item acc) acc xs)"
  using assms(2)
proof (induction xs arbitrary: acc)
  case Nil
  then show ?case by simp
next
  case (Cons x xs)
  have "sorted_wrt (\<lambda>a b. key b \<le> key a) (insertItem cmp x acc)"
    using key Cons.prems by (rule insertItem_descending)
  then show ?case
    using Cons.IH by simp
qed

lemma filter_insert_all:
  assumes key: "\<And>a b. (cmp a b \<le> 0) = (key a \<le> (key b :: int))"
  shows "filter (\<lambda>y. key y = k) (foldl (\<lambda>acc item. insertItem cmp item acc) acc xs)
         = rev (filter (\<lambda>y. key y = k) xs) @ filter (\<lambda>y. key y = k) acc"
  by (induction xs arbitrary: acc) (auto simp: filter_insertItem [OF key])

lemma mset_array_sort: "mset (array_sort cmp xs) = mset xs"
  by (simp add: array_sort_def mset_insert_all)

lemma sorted_array_sort:
  assumes key: "\<And>a b. (cmp a b \<le> 0) = (key a \<le> (key b :: int))"
  shows "sorted (map key (array_sort cmp xs))"
proof -
  have "sorted_wrt (\<lambda>a b. key b \<le> key a) (foldl (\<lambda>acc item. insertItem cmp item acc) [] xs)"
    by (rule descending_insert_all [OF key]) simp
  then show ?thesis
    by (simp add: array_sort_def sorted_map sorted_wrt_rev)
qed

lemma stable_array_sort:
  assumes key: "\<And>a b. (cmp a b \<le> 0) = (key a \<le> (key b :: int))"
  shows "filter (\<lambda>y. key y = k) (array_sort cmp xs) = filter (\<lambda>y. key y = k) xs"
  by (simp add: array_sort_def rev_filter [symmetric] filter_insert_all [OF key])

lemma compare_priority_key:
  "(compareTasks ByPriority a b \<le> 0) = (priorityOrder (priority a) \<le> priorityOrder (priority b))"
  by (simp add: compareTasks_def)

lemma priorityOrder_inj: "priorityOrder p = priorityOrder p' \<longleftrightarrow> p = p'"
  by (cases p; cases p') simp_all

lemma insertItem_rl_eq:
  assumes "\<And>a b. (cmp a b < 0) = (\<not> cmp b a \<le> 0)"
  shows "insertItem_rl cmp x ys = insertItem cmp x ys"
  by (induction ys) (auto simp: assms)

lemma array_sort_rl_eq:
  assumes "\<And>a b. (cmp a b < 0) = (\<not> cmp b a \<le> 0)"
  shows "array_sort_rl cmp xs = array_sort cmp xs"
proof -
  have "insertItem_rl cmp = insertItem cmp"
    by (intro ext) (rule insertItem_rl_eq [OF assms])
  then show ?thesis
    by (simp add: array_sort_rl_def array_sort_def)
qed

lemma sort_by_priority_either_way:
  "array_sort_rl (compareTasks ByPriority) ts = sortTasks ByPriority ts"
  unfolding sortTasks_def
  by (rule array_sort_rl_eq) (auto simp: compareTasks_def)

text \<open>The example of three tasks: A (High), B (Low), C (High).\<close>

lemma sort_by_priority_example:
  "map task_text (sortTasks ByPriority
     [\<lparr> task_id = 1, task_text = ''A'', completed = False, category = ''Other'',
        priority = High, dueDate = None, description = [], expanded = False \<rparr>,
      \<lparr> task_id = 2, task_text = ''B'', completed = False, category = ''Other'',
        priority = Low, dueDate = None, description = [], expanded = False \<rparr>,
      \<lparr> task_id = 3, task_text = ''C'', completed = False, category = ''Other'',
        priority = High, dueDate = None, description = [], expanded = False \<rparr>])
   = [''A'', ''C'', ''B'']"
  by (simp add: sortTasks_def array_sort_def compareTasks_def)

lemma sort_by_priority_sorted:
  "sorted (map (\<lambda>t. priorityOrder (priority t)) (sortTasks ByPriority ts))"
  unfolding sortTasks_def by (rule sorted_array_sort) (rule compare_priority_key)

lemma sort_by_priority_stable:
  "filter (\<lambda>t. priority t = p) (sortTasks ByPriority ts) = filter (\<lambda>t. priority t = p) ts"
proof -
  have "filter (\<lambda>t. priorityOrder (priority t) = priorityOrder p) (sortTasks ByPriority ts)
        = filter (\<lambda>t. priorityOrder (priority t) = priorityOrder p) ts"
    unfolding sortTasks_def by (rule stable_array_sort) (rule compare_priority_key)
  then show ?thesis
    by (simp add: priorityOrder_inj)
qed

lemma ascending_ranks_blocks:
  assumes "sorted (map (\<lambda>t. priorityOrder (priority t)) xs)"
  shows "xs = filter (\<lambda>t. priority t = High) xs
              @ filter (\<lambda>t. priority t = Medium) xs
              @ filter (\<lambda>t. priority t = Low) xs"
  using assms
proof (induction xs)
  case Nil
  then show ?case by simp
next
  case (Cons x xs)
  then have later: "\<forall>y \<in> set xs. priorityOrder (priority x) \<le> priorityOrder (priority y)"
    and rest: "sorted (map (\<lambda>t. priorityOrder (priority t)) xs)"
    by simp_all
  note IH = Cons.IH [OF rest]
  show ?case
  proof (cases "priority x")
    case High
    with IH show ?thesis by simp
  next
    case Medium
    with later have "\<forall>y \<in> set xs. priority y \<noteq> High"
      by fastforce
    then have "filter (\<lambda>t. priority t = High) xs = []"
      by (simp add: filter_empty_conv)
    with Medium IH show ?thesis by simp
  next
    case Low
    with later have "\<forall>y \<in> set xs. priority y \<noteq> High \<and> priority y \<noteq> Medium"
      by fastforce
    then have "filter (\<lambda>t. priority t = High) xs = []"
      "filter (\<lambda>t. priority t = Medium) xs = []"
      by (simp_all add: filter_empty_conv)
    with Low IH show ?thesis by simp
  qed
qed

text \<open>
  C6. Sorting by priority returns all tasks of priority \<open>High\<close>, then all of
  priority \<open>Medium\<close>, then all of priority \<open>Low\<close>, each group in the order its
  tasks had in the collection. So the result holds the tasks it was given (each as
  often as before), it is ascending in the ranks of the code's table, in which
  \<open>High\<close> stands below \<open>Medium\<close> and \<open>Medium\<close> below \<open>Low\<close>, and the tasks of
  any one priority keep their order: of A (High), B (Low), C (High), inserted in that
  order, A comes first, then C, then B.
\<close>

theorem sort_by_priority_ascending_stable:
  "sortTasks ByPriority ts
     = filter (\<lambda>t. priority t = High) ts
       @ filter (\<lambda>t. priority t = Medium) ts
       @ filter (\<lambda>t. priority t = Low) ts
   \<and> mset (sortTasks ByPriority ts) = mset ts
   \<and> priorityOrder High < priorityOrder Medium
   \<and> priorityOrder Medium < priorityOrder Low
   \<and> sorted (map (\<lambda>t. priorityOrder (priority t)) (sortTasks ByPriority ts))
   \<and> filter (\<lambda>t. priority t = p) (sortTasks ByPriority ts) = filter (\<lambda>t. priority t = p) ts
   \<and> map task_text (sortTasks ByPriority
        [\<lparr> task_id = 1, task_text = ''A'', completed = False, category = ''Other'',
           priority = High, dueDate = None, description = [], expanded = False \<rparr>,
         \<lparr> task_id = 2, task_text = ''B'', completed = False, category = ''Other'',
           priority = Low, dueDate = None, description = [], expanded = False \<rparr>,
         \<lparr> task_id = 3, task_text = ''C'', completed = False, category = ''Other'',
           priority = High, dueDate = None, description = [], expanded = False \<rparr>])
       = [''A'', ''C'', ''B'']"
proof -
  have blocks: "sortTasks ByPriority ts
     = filter (\<lambda>t. priority t = High) ts
       @ filter (\<lambda>t. priority t = Medium) ts
       @ filter (\<lambda>t. priority t = Low) ts"
    using ascending_ranks_blocks [OF sort_by_priority_sorted [of ts]]
    by (simp only: sort_by_priority_stable)
  have example: "map task_text (sortTasks ByPriority
        [\<lparr> task_id = 1, task_text = ''A'', completed = False, category = ''Other'',
           priority = High, dueDate = None, description = [], expanded = False \<rparr>,
         \<lparr> task_id = 2, task_text = ''B'', completed = False, category = ''Other'',
           priority = Low, dueDate = None, description = [], expanded = False \<rparr>,
         \<lparr> task_id = 3, task_text = ''C'', completed = False, category = ''Other'',
           priority = High, dueDate = None, description = [], expanded = False \<rparr>])
       = [''A'', ''C'', ''B'']"
    by (rule sort_by_priority_example)
  have perm: "mset (sortTasks ByPriority ts) = mset ts"
    by (simp add: sortTasks_def mset_array_sort)
  have ranks: "priorityOrder High < priorityOrder Medium" "priorityOrder Medium < priorityOrder Low"
    by simp_all
  from blocks perm ranks sort_by_priority_sorted [of ts] sort_by_priority_stable [of p ts] example
  show ?thesis by blast
qed

text \<open>
  What the two insertion sorts return for the due-date comparator: the tasks with a due
  date first, in ascending order of time and stable, then the tasks without one, which
  \<open>array_sort\<close> leaves in reverse order and \<open>array_sort_rl\<close> in their original
  order.
\<close>

lemma array_sort_key:
  assumes key: "\<And>a b. (cmp a b \<le> 0) = (key a \<le> (key b :: int))"
  shows "array_sort cmp xs = sort_key key xs"
proof (rule properties_for_sort_key [symmetric])
  show "mset (array_sort cmp xs) = mset xs"
    by (rule mset_array_sort)
  show "sorted (map key (array_sort cmp xs))"
    by (rule sorted_array_sort [OF key])
  fix k
  have "filter (\<lambda>x. key x = key k) (array_sort cmp xs) = filter (\<lambda>x. key x = key k) xs"
    by (rule stable_array_sort [OF key])
  then show "filter (\<lambda>x. key k = key x) (array_sort cmp xs) = filter (\<lambda>x. key k = key x) xs"
    by (simp add: eq_commute)
qed

lemma insert_dateless:
  assumes "dueDate x = None" "\<forall>t \<in> set N. dueDate t = None" "\<forall>t \<in> set D. dueDate t \<noteq> None"
  shows "insertItem (compareTasks ByDueDate) x (N @ D) = N @ x # D"
  using assms(2)
proof (induction N)
  case Nil
  from assms(1,3) show ?case
    by (cases D) (auto simp: compareTasks_def)
next
  case (Cons n N)
  then show ?case by (simp add: compareTasks_def)
qed

lemma insert_dated_past_dateless:
  assumes "\<forall>t \<in> set N. dueDate t = None"
  shows "insertItem (compareTasks ByDueDate) x (N @ D) = N @ insertItem (compareTasks ByDueDate) x D"
  using assms by (induction N) (simp_all add: compareTasks_def)

lemma insert_dated_by_time:
  assumes "dueDate x \<noteq> None" "\<forall>t \<in> set D. dueDate t \<noteq> None"
  shows "insertItem (compareTasks ByDueDate) x D
         = insertItem (\<lambda>a b. the (dueDate a) - the (dueDate b)) x D"
  using assms by (induction D) (auto simp: compareTasks_def)

lemma insert_all_by_due_date:
  assumes "\<forall>t \<in> set N. dueDate t = None" "\<forall>t \<in> set D. dueDate t \<noteq> None"
  shows "foldl (\<lambda>acc item. insertItem (compareTasks ByDueDate) item acc) (N @ D) xs
         = (N @ filter (\<lambda>t. dueDate t = None) xs)
           @ foldl (\<lambda>acc item. insertItem (\<lambda>a b. the (dueDate a) - the (dueDate b)) item acc) D
               (filter (\<lambda>t. dueDate t \<noteq> None) xs)"
  using assms
proof (induction xs arbitrary: N D)
  case Nil
  then show ?case by simp
next
  case (Cons x xs)
  show ?case
  proof (cases "dueDate x")
    case None
    have "insertItem (compareTasks ByDueDate) x (N @ D) = (N @ [x]) @ D"
      using insert_dateless [OF None Cons.prems] by simp
    moreover have "\<forall>t \<in> set (N @ [x]). dueDate t = None"
      using None Cons.prems(1) by simp
    ultimately show ?thesis
      using Cons.IH [of "N @ [x]" D] Cons.prems(2) None by simp
  next
    case (Some d)
    let ?D = "insertItem (\<lambda>a b. the (dueDate a) - the (dueDate b)) x D"
    have "insertItem (compareTasks ByDueDate) x (N @ D) = N @ ?D"
      using insert_dated_past_dateless [OF Cons.prems(1)] insert_dated_by_time [of x D]
        Some Cons.prems(2) by simp
    moreover have "\<forall>t \<in> set ?D. dueDate t \<noteq> None"
      using Some Cons.prems(2) by (simp add: set_insertItem)
    ultimately show ?thesis
      using Cons.IH [of N ?D] Cons.prems(1) Some by simp
  qed
qed

lemma sort_by_due_date_model:
  "sortTasks ByDueDate ts
   = sort_key (\<lambda>t. the (dueDate t)) (filter (\<lambda>t. dueDate t \<noteq> None) ts)
     @ rev (filter (\<lambda>t. dueDate t = None) ts)"
proof -
  have "sortTasks ByDueDate ts
        = array_sort (\<lambda>a b. the (dueDate a) - the (dueDate b)) (filter (\<lambda>t. dueDate t \<noteq> None) ts)
          @ rev (filter (\<lambda>t. dueDate t = None) ts)"
    using insert_all_by_due_date [of "[]" "[]" ts]
    by (simp add: sortTasks_def array_sort_def)
  moreover have "array_sort (\<lambda>a b. the (dueDate a) - the (dueDate b)) xs
                 = sort_key (\<lambda>t. the (dueDate t)) xs" for xs :: "task list"
    by (rule array_sort_key) simp
  ultimately show ?thesis by simp
qed

lemma insert_rl_dateless:
  assumes "dueDate x = None"
  shows "insertItem_rl (compareTasks ByDueDate) x acc = x # acc"
  using assms by (cases acc) (simp_all add: compareTasks_def)

lemma insert_rl_dated_past_dateless:
  assumes "dueDate x \<noteq> None" "\<forall>t \<in> set N. dueDate t = None"
  shows "insertItem_rl (compareTasks ByDueDate) x (N @ D)
         = N @ insertItem_rl (compareTasks ByDueDate) x D"
  using assms by (induction N) (auto simp: compareTasks_def)

lemma insert_rl_dated_by_time:
  assumes "dueDate x \<noteq> None" "\<forall>t \<in> set D. dueDate t \<noteq> None"
  shows "insertItem_rl (compareTasks ByDueDate) x D
         = insertItem_rl (\<lambda>a b. the (dueDate a) - the (dueDate b)) x D"
  using assms by (induction D) (auto simp: compareTasks_def)

lemma set_insertItem_rl: "set (insertItem_rl cmp x ys) = insert x (set ys)"
  by (induction ys) auto

lemma insert_all_rl_by_due_date:
  assumes "\<forall>t \<in> set N. dueDate t = None" "\<forall>t \<in> set D. dueDate t \<noteq> None"
  shows "foldl (\<lambda>acc item. insertItem_rl (compareTasks ByDueDate) item acc) (N @ D) xs
         = (rev (filter (\<lambda>t. dueDate t = None) xs) @ N)
           @ foldl (\<lambda>acc item. insertItem_rl (\<lambda>a b. the (dueDate a) - the (dueDate b)) item acc) D
               (filter (\<lambda>t. dueDate t \<noteq> None) xs)"
  using assms
proof (induction xs arbitrary: N D)
  case Nil
  then show ?case by simp
next
  case (Cons x xs)
  show ?case
  proof (cases "dueDate x")
    case None
    have "insertItem_rl (compareTasks ByDueDate) x (N @ D) = (x # N) @ D"
      using insert_rl_dateless [OF None] by simp
    moreover have "\<forall>t \<in> set (x # N). dueDate t = None"
      using None Cons.prems(1) by simp
    ultimately show ?thesis
      using Cons.IH [of "x # N" D] Cons.prems(2) None by simp
  next
    case (Some d)
    let ?D = "insertItem_rl (\<lambda>a b. the (dueDate a) - the (dueDate b)) x D"
    have "insertItem_rl (compareTasks ByDueDate) x (N @ D) = N @ ?D"
      using insert_rl_dated_past_dateless [of x N D] insert_rl_dated_by_time [of x D]
        Some Cons.prems by simp
    moreover have "\<forall>t \<in> set ?D. dueDate t \<noteq> None"
      using Some Cons.prems(2) by (simp add: set_insertItem_rl)
    ultimately show ?thesis
      using Cons.IH [of N ?D] Cons.prems(1) Some by simp
  qed
qed

lemma sort_by_due_date_model_rl:
  "array_sort_rl (compareTasks ByDueDate) ts
   = sort_key (\<lambda>t. the (dueDate t)) (filter (\<lambda>t. dueDate t \<noteq> None) ts)
     @ filter (\<lambda>t. dueDate t = None) ts"
proof -
  have "array_sort_rl (compareTasks ByDueDate) ts
        = array_sort_rl (\<lambda>a b. the (dueDate a) - the (dueDate b)) (filter (\<lambda>t. dueDate t \<noteq> None) ts)
          @ filter (\<lambda>t. dueDate t = None) ts"
    using insert_all_rl_by_due_date [of "[]" "[]" ts]
    by (simp add: array_sort_rl_def)
  moreover have "array_sort_rl (\<lambda>a b. the (dueDate a) - the (dueDate b)) xs
                 = array_sort (\<lambda>a b. the (dueDate a) - the (dueDate b)) xs" for xs :: "task list"
    by (rule array_sort_rl_eq) auto
  moreover have "array_sort (\<lambda>a b. the (dueDate a) - the (dueDate b)) xs
                 = sort_key (\<lambda>t. the (dueDate t)) xs" for xs :: "task list"
    by (rule array_sort_key) simp
  ultimately show ?thesis by simp
qed

text \<open>
  C5. The comparator for the due-date order answers \<open>1\<close> whenever its first task has
  no due date, also when the second has none either: of two tasks without a due date
  each is reported to sort after the other, so the comparator is not a consistent one
  and the order of such tasks depends on the order in which \<open>sort\<close> passes them.
  The insertion sort that calls \<open>comparefn(swap, item)\<close> reverses them; the one that
  calls \<open>comparefn(item, swap)\<close> keeps them.
\<close>

theorem sort_by_due_date_two_dateless_tasks:
  "compareTasks ByDueDate
      \<lparr> task_id = 1, task_text = ''a'', completed = False, category = ''Other'',
        priority = Medium, dueDate = None, description = [], expanded = False \<rparr>
      \<lparr> task_id = 2, task_text = ''b'', completed = False, category = ''Other'',
        priority = Medium, dueDate = None, description = [], expanded = False \<rparr> = 1
   \<and> compareTasks ByDueDate
      \<lparr> task_id = 2, task_text = ''b'', completed = False, category = ''Other'',
        priority = Medium, dueDate = None, description = [], expanded = False \<rparr>
      \<lparr> task_id = 1, task_text = ''a'', completed = False, category = ''Other'',
        priority = Medium, dueDate = None, description = [], expanded = False \<rparr> = 1
   \<and> map task_id (sortTasks ByDueDate
      [\<lparr> task_id = 1, task_text = ''a'', completed = False, category = ''Other'',
         priority = Medium, dueDate = None, description = [], expanded = False \<rparr>,
       \<lparr> task_id = 2, task_text = ''b'', completed = False, category = ''Other'',
         priority = Medium, dueDate = None, description = [], expanded = False \<rparr>]) = [2, 1]
   \<and> map task_id (array_sort_rl (compareTasks ByDueDate)
      [\<lparr> task_id = 1, task_text = ''a'', completed = False, category = ''Other'',
         priority = Medium, dueDate = None, description = [], expanded = False \<rparr>,
       \<lparr> task_id = 2, task_text = ''b'', completed = False, category = ''Other'',
         priority = Medium, dueDate = None, description = [], expanded = False \<rparr>]) = [1, 2]"
  by (simp add: compareTasks_def sortTasks_def array_sort_def array_sort_rl_def)


section \<open>Filtering\<close>

lemma startsWith_iff: "startsWith s q \<longleftrightarrow> (\<exists>ss. s = q @ ss)"
  by (induction s q rule: startsWith.induct) auto

lemma includes_str_iff: "includes_str s q \<longleftrightarrow> (\<exists>ps ss. s = ps @ q @ ss)"
proof (induction s)
  case Nil
  then show ?case by auto
next
  case (Cons c cs)
  show ?case
  proof
    assume "includes_str (c # cs) q"
    then consider "startsWith (c # cs) q" | "includes_str cs q" by auto
    then show "\<exists>ps ss. c # cs = ps @ q @ ss"
    proof cases
      case 1
      then obtain ss where "c # cs = q @ ss" by (auto simp: startsWith_iff)
      then have "c # cs = [] @ q @ ss" by simp
      then show ?thesis by blast
    next
      case 2
      then obtain ps ss where "cs = ps @ q @ ss" using Cons.IH by auto
      then have "c # cs = (c # ps) @ q @ ss" by simp
      then show ?thesis by blast
    qed
  next
    assume "\<exists>ps ss. c # cs = ps @ q @ ss"
    then obtain ps ss where eq: "c # cs = ps @ q @ ss" by auto
    show "includes_str (c # cs) q"
    proof (cases ps)
      case Nil
      with eq have "startsWith (c # cs) q" by (auto simp: startsWith_iff)
      then show ?thesis by simp
    next
      case (Cons p ps')
      with eq have "cs = ps' @ q @ ss" by simp
      then have "includes_str cs q" using Cons.IH by auto
      then show ?thesis by simp
    qed
  qed
qed

lemma includes_str_empty_query: "includes_str s []"
  by (cases s) simp_all

lemma filtered_iff:
  "t \<in> set (filtered ts q sel) \<longleftrightarrow>
     t \<in> set ts
     \<and> (\<exists>ps ss. toLowerCase (task_text t) = ps @ toLowerCase q @ ss)
     \<and> (sel = ''All'' \<or> category t = sel)"
  by (auto simp: filtered_def matchesSearch_def matchesCategory_def includes_str_iff)

lemma filtered_All_empty_query: "filtered ts [] ''All'' = ts"
  by (simp add: filtered_def matchesSearch_def matchesCategory_def toLowerCase_def
      includes_str_empty_query)

text \<open>
  C3. With the drawer's selection \<open>High Priority\<close> the filter compares the name with
  each task's category like any other: an incomplete task of priority \<open>High\<close> in the
  category \<open>Work\<close> is left out (while the badge beside that selection counts it), and a
  task of priority \<open>Low\<close> whose category is the string \<open>High Priority\<close> is kept.
\<close>

theorem high_priority_selection_compares_category:
  "filtered
      [\<lparr> task_id = 1, task_text = ''Pay rent'', completed = False, category = ''Work'',
         priority = High, dueDate = None, description = [], expanded = False \<rparr>]
      [] ''High Priority'' = []
   \<and> highPriority (getTaskCounts 0 0
      [\<lparr> task_id = 1, task_text = ''Pay rent'', completed = False, category = ''Work'',
         priority = High, dueDate = None, description = [], expanded = False \<rparr>]) = 1
   \<and> filtered
      [\<lparr> task_id = 2, task_text = ''Nap'', completed = False, category = ''High Priority'',
         priority = Low, dueDate = None, description = [], expanded = False \<rparr>]
      [] ''High Priority''
     = [\<lparr> task_id = 2, task_text = ''Nap'', completed = False, category = ''High Priority'',
         priority = Low, dueDate = None, description = [], expanded = False \<rparr>]"
  by (simp add: filtered_def matchesSearch_def matchesCategory_def toLowerCase_def
      includes_str_empty_query getTaskCounts_def)


section \<open>Aggregate counts\<close>

lemma less_mult_iff_div_less:
  assumes "(0::int) < D"
  shows "(x < k * D) = (x div D < k)"
proof
  assume a: "x < k * D"
  show "x div D < k"
  proof (rule ccontr)
    assume "\<not> x div D < k"
    then have "k \<le> x div D" by simp
    then have "k * D \<le> (x div D) * D" using assms by (simp add: mult_right_mono)
    also have "\<dots> \<le> x"
    proof -
      have e: "(x div D) * D + x mod D = x" by simp
      have m: "0 \<le> x mod D" using assms by simp
      from e m show ?thesis by linarith
    qed
    finally show False using a by simp
  qed
next
  assume "x div D < k"
  then have "x div D + 1 \<le> k" by simp
  then have "(x div D + 1) * D \<le> k * D" using assms by (simp add: mult_right_mono)
  moreover have "x < (x div D + 1) * D"
  proof -
    have e: "(x div D) * D + x mod D = x" by simp
    have m: "x mod D < D" using assms by simp
    have d: "(x div D + 1) * D = (x div D) * D + D" by (simp add: algebra_simps)
    from e m d show ?thesis by linarith
  qed
  ultimately show "x < k * D" by simp
qed

lemma before_start_of_day_iff:
  "isBefore t (startOfToday offset now) \<longleftrightarrow> localDay offset t < localDay offset now"
proof -
  have pos: "(0::int) < msPerDay" by (simp add: msPerDay_def)
  have "t < (now + offset) div msPerDay * msPerDay - offset
        \<longleftrightarrow> t + offset < (now + offset) div msPerDay * msPerDay"
    by arith
  also have "\<dots> \<longleftrightarrow> (t + offset) div msPerDay < (now + offset) div msPerDay"
    using pos by (rule less_mult_iff_div_less)
  finally show ?thesis
    by (simp add: isBefore_def startOfToday_def localDay_def)
qed

text \<open>
  C9. The four counts: all tasks; the completed ones; those with a due date whose local
  calendar day lies before today's, whether completed or not; and those of priority
  \<open>High\<close> that are not completed.
\<close>

theorem task_counts:
  "getTaskCounts offset now ts =
     \<lparr> total = length ts,
       completed_count = length (filter (\<lambda>t. completed t) ts),
       overdue = length (filter (\<lambda>t. case dueDate t of
                                         None \<Rightarrow> False
                                       | Some d \<Rightarrow> localDay offset d < localDay offset now) ts),
       highPriority = length (filter (\<lambda>t. priority t = High \<and> \<not> completed t) ts) \<rparr>"
proof -
  have "filter (\<lambda>t. dueDate t \<noteq> None \<and> isTaskOverdue offset now (dueDate t)) ts
        = filter (\<lambda>t. case dueDate t of None \<Rightarrow> False
                   | Some d \<Rightarrow> localDay offset d < localDay offset now) ts"
    by (rule filter_cong)
      (auto simp: isTaskOverdue_def before_start_of_day_iff split: option.splits)
  then show ?thesis
    by (simp only: getTaskCounts_def)
qed


section \<open>Categories of the tasks in the store\<close>

lemma newTask_category_menu:
  assumes "selectedCategory s \<in> set menuSelections"
  shows "category (newTask now s) \<in> set categories"
  using assms by (auto simp: newTask_def menuSelections_def categories_def)

lemma step_keeps_categories:
  assumes sel: "\<And>c. e = SetSelectedCategory c \<Longrightarrow> c \<in> set menuSelections"
    and inv: "selectedCategory s \<in> set menuSelections"
             "\<forall>t \<in> set (tasks s). category t \<in> set categories"
  shows "selectedCategory (step s e) \<in> set menuSelections
         \<and> (\<forall>t \<in> set (tasks (step s e)). category t \<in> set categories)"
proof (cases e)
  case (AddTask now)
  with inv newTask_category_menu [OF inv(1), of now] show ?thesis
    by (auto simp: handleAddTask_def showSuccessMessage_def)
next
  case (SetSelectedCategory c)
  with sel inv show ?thesis by simp
qed (use inv in \<open>auto simp: handleDeleteTask_def handleToggleComplete_def
       handleToggleExpand_def showSuccessMessage_def\<close>)

lemma run_keeps_categories:
  assumes "\<forall>e \<in> set es. \<forall>c. e = SetSelectedCategory c \<longrightarrow> c \<in> set menuSelections"
    and "selectedCategory s \<in> set menuSelections"
    and "\<forall>t \<in> set (tasks s). category t \<in> set categories"
  shows "\<forall>t \<in> set (tasks (run s es)). category t \<in> set categories"
  using assms
proof (induction es arbitrary: s)
  case Nil
  then show ?case by (simp add: run_def)
next
  case (Cons e es)
  have "selectedCategory (step s e) \<in> set menuSelections
        \<and> (\<forall>t \<in> set (tasks (step s e)). category t \<in> set categories)"
    using Cons.prems by (intro step_keeps_categories) auto
  moreover have "\<forall>e \<in> set es. \<forall>c. e = SetSelectedCategory c \<longrightarrow> c \<in> set menuSelections"
    using Cons.prems(1) by simp
  ultimately have "\<forall>t \<in> set (tasks (run (step s e) es)). category t \<in> set categories"
    using Cons.IH by blast
  then show ?case by (simp add: run_def)
qed

lemma categories_from_menu_selections:
  assumes "\<forall>e \<in> set es. \<forall>c. e = SetSelectedCategory c \<longrightarrow> c \<in> set menuSelections"
  shows "\<forall>t \<in> set (tasks (run (initial []) es)). category t \<in> set categories"
  using assms by (rule run_keeps_categories) (simp_all add: initial_def menuSelections_def)

text \<open>
  C1. The drawer offers \<open>High Priority\<close> and \<open>Due Today\<close> as selections, and
  \<open>handleAddTask\<close> replaces only the selection \<open>All\<close> by \<open>Other\<close>: a task added
  while one of the two is selected carries that name as its category.
\<close>

theorem add_under_pseudo_category_selection:
  "list_all offered [SetSelectedCategory ''High Priority'', SetCurrentTask ''Pay rent'', AddTask 1]
   \<and> map category (tasks (run (initial [])
        [SetSelectedCategory ''High Priority'', SetCurrentTask ''Pay rent'', AddTask 1]))
       = [''High Priority'']
   \<and> ''High Priority'' \<notin> set categories
   \<and> list_all offered [SetSelectedCategory ''Due Today'', SetCurrentTask ''Pay rent'', AddTask 1]
   \<and> map category (tasks (run (initial [])
        [SetSelectedCategory ''Due Today'', SetCurrentTask ''Pay rent'', AddTask 1]))
       = [''Due Today'']
   \<and> ''Due Today'' \<notin> set categories"
  by (simp add: run_def initial_def handleAddTask_def newTask_def showSuccessMessage_def
      trim_def isWhiteSpace_def drawerSelections_def categories_def)


section \<open>Identifiers of new tasks\<close>

text \<open>
  C7, as the store behaves. For a title that is not blank, \<open>handleAddTask\<close> makes the
  collection longer by one: the tasks it held stay in place and the new task comes
  last, with the trimmed title, not completed, not expanded, and with the timestamp of
  the call as its id. The id is larger than every id in the store, and so differs from
  each, when the timestamp is larger than all of them.
\<close>

theorem add_appends_task_with_timestamp_id:
  assumes "trim (currentTask s) \<noteq> []"
  shows "length (tasks (handleAddTask now s)) = length (tasks s) + 1
   \<and> butlast (tasks (handleAddTask now s)) = tasks s
   \<and> task_id (last (tasks (handleAddTask now s))) = now
   \<and> task_text (last (tasks (handleAddTask now s))) = trim (currentTask s)
   \<and> \<not> completed (last (tasks (handleAddTask now s)))
   \<and> \<not> expanded (last (tasks (handleAddTask now s)))
   \<and> ((\<forall>t \<in> set (tasks s). task_id t < now) \<longrightarrow>
        (\<forall>t \<in> set (tasks s). task_id t < task_id (last (tasks (handleAddTask now s)))
                              \<and> task_id t \<noteq> task_id (last (tasks (handleAddTask now s)))))"
  using assms
  by (auto simp: handleAddTask_def showSuccessMessage_def newTask_def)

theorem add_appends_task_with_timestamp_id_witness:
  "trim (currentTask ((initial [\<lparr> task_id = 5, task_text = ''a'', completed = True,
        category = ''Other'', priority = Medium, dueDate = None, description = [],
        expanded = True \<rparr>])\<lparr> currentTask := '' b '' \<rparr>)) \<noteq> []
   \<and> length (tasks (handleAddTask 9 ((initial [\<lparr> task_id = 5, task_text = ''a'', completed = True,
        category = ''Other'', priority = Medium, dueDate = None, description = [],
        expanded = True \<rparr>])\<lparr> currentTask := '' b '' \<rparr>))) = 2
   \<and> task_id (last (tasks (handleAddTask 9 ((initial [\<lparr> task_id = 5, task_text = ''a'', completed = True,
        category = ''Other'', priority = Medium, dueDate = None, description = [],
        expanded = True \<rparr>])\<lparr> currentTask := '' b '' \<rparr>)))) = 9
   \<and> task_text (last (tasks (handleAddTask 9 ((initial [\<lparr> task_id = 5, task_text = ''a'', completed = True,
        category = ''Other'', priority = Medium, dueDate = None, description = [],
        expanded = True \<rparr>])\<lparr> currentTask := '' b '' \<rparr>)))) = ''b''
   \<and> \<not> completed (last (tasks (handleAddTask 9 ((initial [\<lparr> task_id = 5, task_text = ''a'', completed = True,
        category = ''Other'', priority = Medium, dueDate = None, description = [],
        expanded = True \<rparr>])\<lparr> currentTask := '' b '' \<rparr>))))
   \<and> \<not> expanded (last (tasks (handleAddTask 9 ((initial [\<lparr> task_id = 5, task_text = ''a'', completed = True,
        category = ''Other'', priority = Medium, dueDate = None, description = [],
        expanded = True \<rparr>])\<lparr> currentTask := '' b '' \<rparr>))))
   \<and> (5::int) < task_id (last (tasks (handleAddTask 9 ((initial [\<lparr> task_id = 5, task_text = ''a'', completed = True,
        category = ''Other'', priority = Medium, dueDate = None, description = [],
        expanded = True \<rparr>])\<lparr> currentTask := '' b '' \<rparr>))))"
proof -
  let ?s = "(initial [\<lparr> task_id = 5, task_text = ''a'', completed = True,
        category = ''Other'', priority = Medium, dueDate = None, description = [],
        expanded = True \<rparr>])\<lparr> currentTask := '' b '' \<rparr>"
  have title: "trim (currentTask ?s) \<noteq> []"
    by (simp add: trim_def isWhiteSpace_def)
  have t: "trim (currentTask ?s) = ''b''"
    by (simp add: trim_def isWhiteSpace_def)
  have older: "\<forall>t \<in> set (tasks ?s). task_id t < 9"
    by (simp add: initial_def)
  have five: "\<lparr> task_id = 5, task_text = ''a'', completed = True,
        category = ''Other'', priority = Medium, dueDate = None, description = [],
        expanded = True \<rparr> \<in> set (tasks ?s)"
    by (simp add: initial_def)
  have len: "length (tasks ?s) = 1"
    by (simp add: initial_def)
  note th = add_appends_task_with_timestamp_id [OF title, of 9]
  from th older have "\<forall>t \<in> set (tasks ?s). task_id t < task_id (last (tasks (handleAddTask 9 ?s)))"
    by blast
  with five have "(5::int) < task_id (last (tasks (handleAddTask 9 ?s)))"
    by fastforce
  with th title t len show ?thesis
    by simp
qed

text \<open>
  Two adds that read the same timestamp give the two tasks the same id.
\<close>

theorem add_twice_at_one_timestamp:
  "list_all offered [SetCurrentTask ''a'', AddTask 5, SetCurrentTask ''b'', AddTask 5]
   \<and> map task_id (tasks (run (initial [])
        [SetCurrentTask ''a'', AddTask 5, SetCurrentTask ''b'', AddTask 5])) = [5, 5]"
  by (simp add: run_def initial_def handleAddTask_def newTask_def showSuccessMessage_def
      trim_def isWhiteSpace_def)


text \<open>
  In a run whose adds read strictly increasing timestamps, the ids of the store increase
  in the order of insertion, and no two tasks share one.
\<close>

lemma step_ids:
  "map task_id (tasks (step s e)) =
     (case e of
        AddTask now \<Rightarrow> if trim (currentTask s) \<noteq> [] then map task_id (tasks s) @ [now]
                       else map task_id (tasks s)
      | DeleteTask i \<Rightarrow> filter (\<lambda>j. j \<noteq> i) (map task_id (tasks s))
      | _ \<Rightarrow> map task_id (tasks s))"
  by (cases e)
    (auto simp: handleAddTask_def handleDeleteTask_def handleToggleComplete_def
      handleToggleExpand_def showSuccessMessage_def newTask_def filter_map comp_def)

lemma run_ids_increasing:
  assumes "sorted_wrt (<) (addTimes es)"
    and "sorted_wrt (<) (map task_id (tasks s))"
    and "\<forall>i \<in> set (map task_id (tasks s)). \<forall>now \<in> set (addTimes es). i < now"
  shows "sorted_wrt (<) (map task_id (tasks (run s es)))"
  using assms
proof (induction es arbitrary: s)
  case Nil
  then show ?case by (simp add: run_def)
next
  case (Cons e es)
  have times: "sorted_wrt (<) (addTimes es)"
    using Cons.prems(1) by (cases e) auto
  have "sorted_wrt (<) (map task_id (tasks (step s e)))
        \<and> (\<forall>i \<in> set (map task_id (tasks (step s e))). \<forall>now \<in> set (addTimes es). i < now)"
  proof (cases e)
    case (AddTask now)
    with Cons.prems show ?thesis
      by (auto simp: step_ids sorted_wrt_append simp del: step.simps)
  next
    case (DeleteTask i)
    with Cons.prems show ?thesis
      by (auto simp: step_ids sorted_wrt_filter simp del: step.simps)
  qed (use Cons.prems in \<open>auto simp: step_ids simp del: step.simps\<close>)
  then have "sorted_wrt (<) (map task_id (tasks (run (step s e) es)))"
    using Cons.IH [OF times] by blast
  then show ?case by (simp add: run_def)
qed

lemma ids_increasing_under_increasing_clock:
  assumes "sorted_wrt (<) (addTimes es)"
  shows "sorted_wrt (<) (map task_id (tasks (run (initial []) es)))"
    and "distinct (map task_id (tasks (run (initial []) es)))"
proof -
  show inc: "sorted_wrt (<) (map task_id (tasks (run (initial []) es)))"
    using assms by (rule run_ids_increasing) (simp_all add: initial_def)
  then show "distinct (map task_id (tasks (run (initial []) es)))"
    by (simp add: strict_sorted_iff)
qed


section \<open>The derived view and the store\<close>

text \<open>
  C10. Computing the derived view leaves every array that was on the heap as it was, the
  array of the store among them: the result is a new array, and it holds the filtered
  and sorted tasks.
\<close>

theorem derived_view_leaves_store:
  assumes "tasksRef < length h"
  shows "case filteredAndSortedTasks_heap h tasksRef q sel k of
           (h', viewRef) \<Rightarrow>
              h' ! tasksRef = h ! tasksRef
              \<and> take (length h) h' = h
              \<and> viewRef \<noteq> tasksRef
              \<and> h' ! viewRef = filteredAndSortedTasks (h ! tasksRef) q sel k"
  using assms
  by (simp add: filteredAndSortedTasks_heap_def array_filter_def array_sort_in_place_def
      filteredAndSortedTasks_def sortTasks_def filtered_def nth_append)

theorem derived_view_leaves_store_witness:
  "(case filteredAndSortedTasks_heap
      [[\<lparr> task_id = 1, task_text = ''b'', completed = False, category = ''Work'',
          priority = Low, dueDate = None, description = [], expanded = False \<rparr>,
        \<lparr> task_id = 2, task_text = ''ab'', completed = False, category = ''Work'',
          priority = High, dueDate = None, description = [], expanded = False \<rparr>]]
      0 ''B'' ''Work'' ByPriority of
      (h', viewRef) \<Rightarrow>
        viewRef = 1
        \<and> map (map task_id) h' = [[1, 2], [2, 1]])"
proof -
  let ?h = "[[\<lparr> task_id = 1, task_text = ''b'', completed = False, category = ''Work'',
          priority = Low, dueDate = None, description = [], expanded = False \<rparr>,
        \<lparr> task_id = 2, task_text = ''ab'', completed = False, category = ''Work'',
          priority = High, dueDate = None, description = [], expanded = False \<rparr>]]"
  have alloc: "0 < length ?h" by simp
  obtain h' viewRef where r: "filteredAndSortedTasks_heap ?h 0 ''B'' ''Work'' ByPriority = (h', viewRef)"
    by (cases "filteredAndSortedTasks_heap ?h 0 ''B'' ''Work'' ByPriority")
  have view: "filteredAndSortedTasks (?h ! 0) ''B'' ''Work'' ByPriority
     = [\<lparr> task_id = 2, task_text = ''ab'', completed = False, category = ''Work'',
          priority = High, dueDate = None, description = [], expanded = False \<rparr>,
        \<lparr> task_id = 1, task_text = ''b'', completed = False, category = ''Work'',
          priority = Low, dueDate = None, description = [], expanded = False \<rparr>]"
    by code_simp
  have len: "length h' = 2" and v: "viewRef = 1"
    using r by (auto simp: filteredAndSortedTasks_heap_def array_filter_def
        array_sort_in_place_def)
  from derived_view_leaves_store [OF alloc, of "''B''" "''Work''" ByPriority] r view v
  have "h' ! 0 = ?h ! 0" and "h' ! 1 = [\<lparr> task_id = 2, task_text = ''ab'', completed = False, category = ''Work'',
          priority = High, dueDate = None, description = [], expanded = False \<rparr>,
        \<lparr> task_id = 1, task_text = ''b'', completed = False, category = ''Work'',
          priority = Low, dueDate = None, description = [], expanded = False \<rparr>]"
    by simp_all
  with len have "map (map task_id) h' = [[1, 2], [2, 1]]"
    by (cases h'; cases "tl h'") auto
  with r v show ?thesis by simp
qed


section \<open>The JSON parser consumes its input and has fuel enough\<close>

lemma parseChars_shorter:
  "parseChars cs = Some (s, r) \<Longrightarrow> length r < length cs"
proof (induction cs arbitrary: s r rule: length_induct)
  case (1 cs)
  note IH = "1.IH" [rule_format]
  from "1.prems" obtain c cs' where cs: "cs = c # cs'"
    by (cases cs) auto
  show ?case
  proof (cases "c = CHR 0x22")
    case True
    with "1.prems" cs show ?thesis by simp
  next
    case notq: False
    show ?thesis
    proof (cases "c = CHR 0x5C")
      case False
      with notq "1.prems" cs
      have "map_option (\<lambda>(s, rest). (of_char c # s, rest)) (parseChars cs') = Some (s, r)"
        by (simp split: if_splits)
      then obtain s' where "parseChars cs' = Some (s', r)"
        by (cases "parseChars cs'") auto
      then have "length r < length cs'"
        using IH [of cs'] cs by simp
      with cs show ?thesis by simp
    next
      case bs: True
      show ?thesis
      proof (cases cs')
        case Nil
        with "1.prems" cs notq bs show ?thesis by simp
      next
        case (Cons e r0)
        show ?thesis
        proof (cases "e = CHR ''u''")
          case True
          have "\<exists>h1 h2 h3 h4 r'. r0 = h1 # h2 # h3 # h4 # r'"
          proof (rule ccontr)
            assume "\<not> ?thesis"
            then have "(case r0 of
                          h1 # h2 # h3 # h4 # r' \<Rightarrow>
                            (case hex4 h1 h2 h3 h4 of
                               Some u \<Rightarrow> map_option (\<lambda>(s, rest). (u # s, rest)) (parseChars r')
                             | None \<Rightarrow> None)
                        | _ \<Rightarrow> None) = None"
              by (simp split: list.split)
            with "1.prems" cs notq bs Cons True show False by simp
          qed
          then obtain h1 h2 h3 h4 r' where r0: "r0 = h1 # h2 # h3 # h4 # r'" by blast
          with "1.prems" cs notq bs Cons True obtain u
            where "map_option (\<lambda>(s, rest). (u # s, rest)) (parseChars r') = Some (s, r)"
            by (cases "hex4 h1 h2 h3 h4") simp_all
          then obtain s' where p: "parseChars r' = Some (s', r)"
            by (cases "parseChars r'") auto
          have "length r < length r'"
            using IH [of r'] p cs Cons r0 by simp
          with cs Cons r0 show ?thesis by simp
        next
          case False
          with "1.prems" cs notq bs Cons obtain u
            where "map_option (\<lambda>(s, rest). (u # s, rest)) (parseChars r0) = Some (s, r)"
            by (cases "unescape e") simp_all
          then obtain s' where p: "parseChars r0 = Some (s', r)"
            by (cases "parseChars r0") auto
          have "length r < length r0"
            using IH [of r0] p cs Cons by simp
          with cs Cons show ?thesis by simp
        qed
      qed
    qed
  qed
qed

lemma takeSign_length: "takeSign cs = (b, r) \<Longrightarrow> length r \<le> length cs"
  by (auto simp: takeSign_def split: list.splits if_splits)

lemma takeInt_shorter: "takeInt cs = Some (ip, r) \<Longrightarrow> length r < length cs"
proof (cases cs)
  case Nil
  assume "takeInt cs = Some (ip, r)"
  with Nil show ?thesis by (simp add: takeInt_def)
next
  case (Cons c cs')
  assume a: "takeInt cs = Some (ip, r)"
  show ?thesis
  proof (cases "c = CHR ''0''")
    case True
    with a Cons show ?thesis by (simp add: takeInt_def)
  next
    case False
    with a Cons have d: "isDigit c" and r: "r = dropWhile isDigit cs"
      by (auto simp: takeInt_def split: if_splits)
    from d Cons have "r = dropWhile isDigit cs'" by (simp add: r)
    then have "length r \<le> length cs'" by (simp add: length_dropWhile_le)
    with Cons show ?thesis by simp
  qed
qed

lemma takeFraction_length: "takeFraction cs = Some (fp, r) \<Longrightarrow> length r \<le> length cs"
proof (cases cs)
  case Nil
  assume "takeFraction cs = Some (fp, r)"
  with Nil show ?thesis by (simp add: takeFraction_def)
next
  case (Cons c cs')
  assume a: "takeFraction cs = Some (fp, r)"
  have "length (dropWhile isDigit cs') \<le> length cs'" by (rule length_dropWhile_le)
  with a Cons show ?thesis
    by (auto simp: takeFraction_def split: if_splits)
qed

lemma takeExponent_length: "takeExponent cs = Some (ex, r) \<Longrightarrow> length r \<le> length cs"
proof (cases cs)
  case Nil
  assume "takeExponent cs = Some (ex, r)"
  with Nil show ?thesis by (simp add: takeExponent_def)
next
  case (Cons c cs')
  assume a: "takeExponent cs = Some (ex, r)"
  show ?thesis
  proof (cases "c = CHR ''e'' \<or> c = CHR ''E''")
    case False
    with a Cons show ?thesis by (auto simp: takeExponent_def)
  next
    case True
    define sr where "sr = (case cs' of
                     [] \<Rightarrow> (False, [])
                   | s # r' \<Rightarrow>
                       if s = CHR ''-'' then (True, r')
                       else if s = CHR ''+'' then (False, r')
                       else (False, cs'))"
    have l1: "length (snd sr) \<le> length cs'"
      by (auto simp: sr_def split: list.splits)
    from a Cons True have "r = dropWhile isDigit (snd sr)"
      by (auto simp: takeExponent_def sr_def split: prod.splits if_splits)
    then have "length r \<le> length (snd sr)" by (simp add: length_dropWhile_le)
    with l1 Cons show ?thesis by simp
  qed
qed

lemma parseNumber_shorter:
  assumes "parseNumber cs = Some (v, r)"
  shows "length r < length cs"
proof -
  obtain negative cs1 where s: "takeSign cs = (negative, cs1)" by (cases "takeSign cs")
  with assms obtain ip cs2 where i: "takeInt cs1 = Some (ip, cs2)"
    by (cases "takeInt cs1") (auto simp: parseNumber_def)
  with assms s obtain fp cs3 where f: "takeFraction cs2 = Some (fp, cs3)"
    by (cases "takeFraction cs2") (auto simp: parseNumber_def)
  with assms s i obtain ex cs4 where e: "takeExponent cs3 = Some (ex, cs4)"
    by (cases "takeExponent cs3") (auto simp: parseNumber_def)
  with assms s i f have "r = cs4" by (simp add: parseNumber_def)
  with takeSign_length [OF s] takeInt_shorter [OF i] takeFraction_length [OF f]
    takeExponent_length [OF e]
  show ?thesis by simp
qed

lemma skipWs_length: "length (skipWs cs) \<le> length cs"
  by (simp add: skipWs_def length_dropWhile_le)

lemma startsWith_length: "startsWith s q \<Longrightarrow> length q \<le> length s"
  by (induction s q rule: startsWith.induct) auto

lemma skipWs_Cons_length: "skipWs r = c # r' \<Longrightarrow> length r' < length r"
  using skipWs_length [of r] by simp

lemma parse_shorter:
  "(\<forall>cs v r. parseValue n cs = Parsed v r \<longrightarrow> length r < length cs)
   \<and> (\<forall>cs vs r. parseElements n cs = Parsed vs r \<longrightarrow> length r < length cs)
   \<and> (\<forall>cs ms r. parseMembers n cs = Parsed ms r \<longrightarrow> length r < length cs)"
proof (induction n)
  case 0
  show ?case by simp
next
  case (Suc n)
  then have IHv: "\<And>cs v r. parseValue n cs = Parsed v r \<Longrightarrow> length r < length cs"
    and IHe: "\<And>cs vs r. parseElements n cs = Parsed vs r \<Longrightarrow> length r < length cs"
    and IHm: "\<And>cs ms r. parseMembers n cs = Parsed ms r \<Longrightarrow> length r < length cs"
    by blast+
  have v: "length r < length cs" if p: "parseValue (Suc n) cs = Parsed v r" for cs v r
  proof (cases cs)
    case Nil
    with p show ?thesis by simp
  next
    case (Cons c r0)
    consider (arr) "c = CHR ''[''" | (obj) "c \<noteq> CHR ''[''" "c = CHR 0x7B"
      | (str) "c \<noteq> CHR ''[''" "c \<noteq> CHR 0x7B" "c = CHR 0x22"
      | (lit) "c \<noteq> CHR ''[''" "c \<noteq> CHR 0x7B" "c \<noteq> CHR 0x22"
      by blast
    then show ?thesis
    proof cases
      case arr
      show ?thesis
      proof (cases "skipWs r0")
        case Nil
        with p Cons arr show ?thesis by simp
      next
        case ws: (Cons c' r')
        show ?thesis
        proof (cases "c' = CHR '']''")
          case True
          with p Cons arr ws have "r = r'" by simp
          with skipWs_Cons_length [OF ws] Cons show ?thesis by simp
        next
          case False
          with p Cons arr ws obtain vs where "parseElements n (c' # r') = Parsed vs r"
            by (cases "parseElements n (c' # r')") simp_all
          from IHe [OF this] skipWs_Cons_length [OF ws] Cons show ?thesis by simp
        qed
      qed
    next
      case obj
      show ?thesis
      proof (cases "skipWs r0")
        case Nil
        with p Cons obj show ?thesis by simp
      next
        case ws: (Cons c' r')
        show ?thesis
        proof (cases "c' = CHR 0x7D")
          case True
          with p Cons obj ws have "r = r'" by simp
          with skipWs_Cons_length [OF ws] Cons show ?thesis by simp
        next
          case False
          with p Cons obj ws obtain ms where "parseMembers n (c' # r') = Parsed ms r"
            by (cases "parseMembers n (c' # r')") simp_all
          from IHm [OF this] skipWs_Cons_length [OF ws] Cons show ?thesis by simp
        qed
      qed
    next
      case str
      with p Cons obtain s where "parseChars r0 = Some (s, r)"
        by (cases "parseChars r0") auto
      from parseChars_shorter [OF this] Cons show ?thesis by simp
    next
      case lit
      consider (t) "startsWith cs ''true''"
        | (f) "\<not> startsWith cs ''true''" "startsWith cs ''false''"
        | (n) "\<not> startsWith cs ''true''" "\<not> startsWith cs ''false''" "startsWith cs ''null''"
        | (num) "\<not> startsWith cs ''true''" "\<not> startsWith cs ''false''" "\<not> startsWith cs ''null''"
        by blast
      then show ?thesis
      proof cases
        case t
        with p Cons lit have "r = drop 4 cs" by simp
        with Cons show ?thesis by simp
      next
        case f
        with p Cons lit have "r = drop 5 cs" by simp
        with Cons show ?thesis by simp
      next
        case n
        with p Cons lit have "r = drop 4 cs" by simp
        with Cons show ?thesis by simp
      next
        case num
        with p Cons lit have "parseNumber cs = Some (v, r)"
          by (cases "parseNumber cs") auto
        then show ?thesis by (rule parseNumber_shorter)
      qed
    qed
  qed
  have e: "length r < length cs" if p: "parseElements (Suc n) cs = Parsed vs r" for cs vs r
  proof -
    from p obtain v rest where pv: "parseValue n cs = Parsed v rest"
      by (cases "parseValue n cs") simp_all
    note l1 = IHv [OF pv]
    from p pv obtain c r1 where ws: "skipWs rest = c # r1"
      by (cases "skipWs rest") simp_all
    note l2 = skipWs_Cons_length [OF ws]
    show ?thesis
    proof (cases "c = CHR '',''")
      case True
      with p pv ws obtain vs' where "parseElements n (skipWs r1) = Parsed vs' r"
        by (cases "parseElements n (skipWs r1)") simp_all
      from IHe [OF this] skipWs_length [of r1] l1 l2 show ?thesis by simp
    next
      case False
      with p pv ws have "r = r1" by (simp split: if_splits)
      with l1 l2 show ?thesis by simp
    qed
  qed
  have m: "length r < length cs" if p: "parseMembers (Suc n) cs = Parsed ms r" for cs ms r
  proof -
    from p obtain q r0 where cs: "cs = q # r0" by (cases cs) simp_all
    with p have q: "q = CHR 0x22" by (simp split: if_splits)
    from p cs q obtain k r1 where pc: "parseChars r0 = Some (k, r1)"
      by (cases "parseChars r0") auto
    note l0 = parseChars_shorter [OF pc]
    from p cs q pc obtain colon r2 where ws1: "skipWs r1 = colon # r2"
      by (cases "skipWs r1") simp_all
    note l1 = skipWs_Cons_length [OF ws1]
    from p cs q pc ws1 have colon: "colon = CHR '':''" by (simp split: if_splits)
    from p cs q pc ws1 colon obtain v rest where pv: "parseValue n (skipWs r2) = Parsed v rest"
      by (cases "parseValue n (skipWs r2)") simp_all
    note l2 = IHv [OF pv] skipWs_length [of r2]
    from p cs q pc ws1 colon pv obtain c r3 where ws2: "skipWs rest = c # r3"
      by (cases "skipWs rest") simp_all
    note l3 = skipWs_Cons_length [OF ws2]
    show ?thesis
    proof (cases "c = CHR '',''")
      case True
      with p cs q pc ws1 colon pv ws2 obtain ms' where "parseMembers n (skipWs r3) = Parsed ms' r"
        by (cases "parseMembers n (skipWs r3)") simp_all
      from IHm [OF this] skipWs_length [of r3] l0 l1 l2 l3 cs show ?thesis by simp
    next
      case False
      with p cs q pc ws1 colon pv ws2 have "r = r3" by (simp split: if_splits)
      with l0 l1 l2 l3 cs show ?thesis by simp
    qed
  qed
  from v e m show ?case by blast
qed

lemma parseValue_shorter: "parseValue n cs = Parsed v r \<Longrightarrow> length r < length cs"
  using parse_shorter [of n] by blast

lemma parse_fuel:
  "(\<forall>cs. 2 * length cs + 1 \<le> n \<longrightarrow> parseValue n cs \<noteq> OutOfFuel)
   \<and> (\<forall>cs. 2 * length cs + 2 \<le> n \<longrightarrow> parseElements n cs \<noteq> OutOfFuel)
   \<and> (\<forall>cs. 2 * length cs + 2 \<le> n \<longrightarrow> parseMembers n cs \<noteq> OutOfFuel)"
proof (induction n)
  case 0
  show ?case by simp
next
  case (Suc n)
  then have IHv: "\<And>cs. 2 * length cs + 1 \<le> n \<Longrightarrow> parseValue n cs \<noteq> OutOfFuel"
    and IHe: "\<And>cs. 2 * length cs + 2 \<le> n \<Longrightarrow> parseElements n cs \<noteq> OutOfFuel"
    and IHm: "\<And>cs. 2 * length cs + 2 \<le> n \<Longrightarrow> parseMembers n cs \<noteq> OutOfFuel"
    by blast+
  have v: "parseValue (Suc n) cs \<noteq> OutOfFuel" if fuel: "2 * length cs + 1 \<le> Suc n" for cs
  proof (cases cs)
    case Nil
    then show ?thesis by simp
  next
    case (Cons c r0)
    consider (arr) "c = CHR ''[''" | (obj) "c \<noteq> CHR ''[''" "c = CHR 0x7B"
      | (other) "c \<noteq> CHR ''[''" "c \<noteq> CHR 0x7B"
      by blast
    then show ?thesis
    proof cases
      case arr
      show ?thesis
      proof (cases "skipWs r0")
        case Nil
        with Cons arr show ?thesis by simp
      next
        case ws: (Cons c' r')
        have "length (c' # r') \<le> length r0"
          using skipWs_length [of r0] ws by simp
        with fuel Cons have "2 * length (c' # r') + 2 \<le> n" by simp
        from IHe [OF this] Cons arr ws show ?thesis
          by (cases "parseElements n (c' # r')") simp_all
      qed
    next
      case obj
      show ?thesis
      proof (cases "skipWs r0")
        case Nil
        with Cons obj show ?thesis by simp
      next
        case ws: (Cons c' r')
        have "length (c' # r') \<le> length r0"
          using skipWs_length [of r0] ws by simp
        with fuel Cons have "2 * length (c' # r') + 2 \<le> n" by simp
        from IHm [OF this] Cons obj ws show ?thesis
          by (cases "parseMembers n (c' # r')") simp_all
      qed
    next
      case other
      with Cons show ?thesis
        by (simp split: option.split prod.split)
    qed
  qed
  have e: "parseElements (Suc n) cs \<noteq> OutOfFuel" if fuel: "2 * length cs + 2 \<le> Suc n" for cs
  proof (cases "parseValue n cs")
    case OutOfFuel
    moreover from fuel have "2 * length cs + 1 \<le> n" by simp
    ultimately show ?thesis using IHv [of cs] by simp
  next
    case Malformed
    then show ?thesis by simp
  next
    case (Parsed v rest)
    note l1 = parseValue_shorter [OF Parsed]
    show ?thesis
    proof (cases "skipWs rest")
      case Nil
      with Parsed show ?thesis by simp
    next
      case (Cons c r1)
      note l2 = skipWs_Cons_length [OF Cons]
      from l1 l2 skipWs_length [of r1] fuel have "2 * length (skipWs r1) + 2 \<le> n" by simp
      from IHe [OF this] Parsed Cons show ?thesis
        by (cases "parseElements n (skipWs r1)") simp_all
    qed
  qed
  have m: "parseMembers (Suc n) cs \<noteq> OutOfFuel" if fuel: "2 * length cs + 2 \<le> Suc n" for cs
  proof (cases cs)
    case Nil
    then show ?thesis by simp
  next
    case cs: (Cons q r0)
    show ?thesis
    proof (cases "q = CHR 0x22")
      case False
      with cs show ?thesis by simp
    next
      case q: True
      show ?thesis
      proof (cases "parseChars r0")
        case None
        with cs q show ?thesis by simp
      next
        case (Some kr)
        then obtain k r1 where pc: "parseChars r0 = Some (k, r1)" by (cases kr) simp
        note l0 = parseChars_shorter [OF pc]
        show ?thesis
        proof (cases "skipWs r1")
          case Nil
          with cs q pc show ?thesis by simp
        next
          case ws1: (Cons colon r2)
          note l1 = skipWs_Cons_length [OF ws1]
          show ?thesis
          proof (cases "colon = CHR '':''")
            case False
            with cs q pc ws1 show ?thesis by simp
          next
            case colon: True
            show ?thesis
            proof (cases "parseValue n (skipWs r2)")
              case OutOfFuel
              moreover from fuel cs l0 l1 skipWs_length [of r2]
              have "2 * length (skipWs r2) + 1 \<le> n" by simp
              ultimately show ?thesis using IHv [of "skipWs r2"] by simp
            next
              case Malformed
              with cs q pc ws1 colon show ?thesis by simp
            next
              case (Parsed v rest)
              note l2 = parseValue_shorter [OF Parsed] skipWs_length [of r2]
              show ?thesis
              proof (cases "skipWs rest")
                case Nil
                with cs q pc ws1 colon Parsed show ?thesis by simp
              next
                case ws2: (Cons c r3)
                note l3 = skipWs_Cons_length [OF ws2]
                from fuel cs l0 l1 l2 l3 skipWs_length [of r3]
                have "2 * length (skipWs r3) + 2 \<le> n" by simp
                from IHm [OF this] cs q pc ws1 colon Parsed ws2 show ?thesis
                  by (cases "parseMembers n (skipWs r3)") simp_all
              qed
            qed
          qed
        qed
      qed
    qed
  qed
  from v e m show ?case by blast
qed

lemma JSON_parse_fuel: "parseValue (2 * length s + 1) (skipWs s) \<noteq> OutOfFuel"
proof -
  have "2 * length (skipWs s) + 1 \<le> 2 * length s + 1"
    using skipWs_length [of s] by simp
  with parse_fuel [of "2 * length s + 1"] show ?thesis by blast
qed

section \<open>What a saved collection loads as\<close>

text \<open>
  The parser reads back what \<open>JSON_stringify\<close> writes: a quoted string as its units,
  an id as the integer, and the object of a task member by member.
\<close>

lemma char_eq_code: "(c = d) = ((of_char c :: nat) = of_char d)"
  by (simp only: of_char_eq_iff)

lemma hexValue_hexDigit: "k < 16 \<Longrightarrow> hexValue (hexDigit k) = Some k"
  by (simp add: hexValue_def hexDigit_def Let_def)

lemma parseChars_quoteJSONChar:
  "parseChars (quoteJSONChar c @ rest)
   = map_option (\<lambda>(s, r). (of_char c # s, r)) (parseChars rest)"
proof -
  define n where "n = (of_char c :: nat)"
  have q: "(c = CHR 0x22) = (n = 34)" and b: "(c = CHR 0x5C) = (n = 92)"
    by (simp_all add: char_eq_code [of c] n_def)
  consider "n = 8" | "n = 9" | "n = 10" | "n = 12" | "n = 13" | "n = 34" | "n = 92"
    | "n < 32" "n \<notin> {8, 9, 10, 12, 13}" | "32 \<le> n" "n \<noteq> 34" "n \<noteq> 92"
    by fastforce
  then show ?thesis
  proof cases
    case 8
    have "n div 16 < 16" "n mod 16 < 16" using 8 by simp_all
    then have h: "hex4 (CHR ''0'') (CHR ''0'') (hexDigit (n div 16)) (hexDigit (n mod 16)) = Some n"
      by (simp add: hex4_def hexValue_hexDigit) (simp add: hexValue_def)
    from 8 have "quoteJSONChar c = [CHR 0x5C, CHR ''u'', CHR ''0'', CHR ''0'', hexDigit (n div 16), hexDigit (n mod 16)]"
      by (auto simp: quoteJSONChar_def Let_def n_def)
    then show ?thesis
      by (simp add: h n_def [symmetric])
  next
    case 9
    then have "quoteJSONChar c = [c]"
      by (auto simp: quoteJSONChar_def Let_def n_def)
    with 9 q b show ?thesis by (simp add: n_def)
  qed (simp_all add: quoteJSONChar_def Let_def n_def [symmetric] unescape_def)
qed

lemma parseChars_quoted:
  "parseChars (concat (map quoteJSONChar s) @ CHR 0x22 # rest) = Some (js s, rest)"
proof (induction s)
  case Nil
  show ?case by (simp add: js_def)
next
  case (Cons c s)
  have "parseChars (concat (map quoteJSONChar (c # s)) @ CHR 0x22 # rest)
        = parseChars (quoteJSONChar c @ (concat (map quoteJSONChar s) @ CHR 0x22 # rest))"
    by simp
  also have "\<dots> = Some (js (c # s), rest)"
    by (simp only: parseChars_quoteJSONChar Cons.IH) (simp add: js_def)
  finally show ?case .
qed

lemma skipWs_not_ws: "\<not> isJsonWhiteSpace c \<Longrightarrow> skipWs (c # cs) = c # cs"
  by (simp add: skipWs_def)

lemma parseValue_string:
  "parseValue (Suc n) (quoteJSON s @ rest) = Parsed (JStr (js s)) rest"
  by (simp add: quoteJSON_def parseChars_quoted)

lemma parseValue_true: "parseValue (Suc n) (''true'' @ rest) = Parsed (JBool True) rest"
  by simp

lemma parseValue_false: "parseValue (Suc n) (''false'' @ rest) = Parsed (JBool False) rest"
  by simp

lemma parseValue_null: "parseValue (Suc n) (''null'' @ rest) = Parsed JNull rest"
  by simp

lemma digit_char: "k < 10 \<Longrightarrow> (of_char (char_of (48 + k) :: char) :: nat) = 48 + k"
  by simp

lemma digits_not_Nil: "digits n \<noteq> []"
  by (subst digits.simps) simp

lemma digits_are_digits: "c \<in> set (digits n) \<Longrightarrow> isDigit c"
proof (induction n arbitrary: c rule: digits.induct)
  case (1 n)
  show ?case
  proof (cases "n < 10")
    case True
    with "1.prems" show ?thesis
      by (subst (asm) digits.simps) (simp add: isDigit_def)
  next
    case False
    with "1.prems" have "c \<in> set (digits (n div 10)) \<or> c = char_of (48 + n mod 10)"
      by (subst (asm) digits.simps) auto
    then show ?thesis
    proof
      assume "c \<in> set (digits (n div 10))"
      with False "1.IH" show ?thesis by simp
    next
      assume "c = char_of (48 + n mod 10)"
      moreover have "n mod 10 < 10" by simp
      ultimately show ?thesis by (simp add: isDigit_def)
    qed
  qed
qed

lemma digitsValue_snoc:
  "digitsValue (ds @ [c]) = 10 * digitsValue ds + (of_char c - 48)"
  by (simp add: digitsValue_def)

lemma digitsValue_digits: "digitsValue (digits n) = n"
proof (induction n rule: digits.induct)
  case (1 n)
  show ?case
  proof (cases "n < 10")
    case True
    then show ?thesis
      by (subst digits.simps) (simp add: digitsValue_def)
  next
    case False
    have "n mod 10 < 10" by simp
    then have "(of_char (char_of (48 + n mod 10) :: char) :: nat) - 48 = n mod 10"
      by (simp only: digit_char)
    with False "1.IH" show ?thesis
      by (subst digits.simps) (simp add: digitsValue_snoc)
  qed
qed

lemma hd_digits_zero: "hd (digits n) = CHR ''0'' \<longleftrightarrow> n = 0"
proof (induction n rule: digits.induct)
  case (1 n)
  show ?case
  proof (cases "n < 10")
    case True
    then have "hd (digits n) = char_of (48 + n)"
      by (subst digits.simps) simp
    moreover have "(char_of (48 + n) = CHR ''0'') = (n = 0)"
      using True by (simp add: char_eq_code [of "char_of (48 + n)"])
    ultimately show ?thesis by simp
  next
    case False
    then have "hd (digits n) = hd (digits (n div 10))"
      by (subst digits.simps) (simp add: digits_not_Nil)
    moreover from False have "n div 10 \<noteq> 0" by simp
    ultimately show ?thesis
      using False "1.IH" by simp
  qed
qed

lemma digits_zero: "digits 0 = ''0''"
  by (subst digits.simps) (simp add: char_of_eq_iff)

lemma takeInt_digits:
  assumes "\<not> isDigit c0"
  shows "takeInt (digits n @ c0 # r) = Some (digits n, c0 # r)"
proof (cases "n = 0")
  case True
  then show ?thesis by (simp add: digits_zero takeInt_def)
next
  case False
  obtain d ds where ds: "digits n = d # ds"
    using digits_not_Nil [of n] by (cases "digits n") auto
  have nz: "d \<noteq> CHR ''0''"
    using hd_digits_zero [of n] False ds by simp
  have d: "isDigit d"
    using digits_are_digits [of d n] ds by simp
  have all: "\<forall>c \<in> set ds. isDigit c"
    using digits_are_digits [of _ n] ds by simp
  have tw: "takeWhile isDigit (ds @ c0 # r) = ds" "dropWhile isDigit (ds @ c0 # r) = c0 # r"
    using all assms by (simp_all add: takeWhile_append2 dropWhile_append2)
  show ?thesis
    by (simp add: ds takeInt_def nz d tw)
qed

lemma not_digit_minus: "isDigit d \<Longrightarrow> d \<noteq> CHR ''-''"
  by (auto simp: isDigit_def)

lemma parseNumber_decimal:
  assumes "\<not> isDigit c0" "c0 \<noteq> CHR ''.''" "c0 \<noteq> CHR ''e''" "c0 \<noteq> CHR ''E''"
  shows "parseNumber (decimal i @ c0 # r) = Some (JNum i 0, c0 # r)"
proof (cases "i < 0")
  case True
  then have s: "takeSign (decimal i @ c0 # r) = (True, digits (nat (- i)) @ c0 # r)"
    by (simp add: decimal_def takeSign_def)
  have "makeNumber True (digits (nat (- i))) [] 0 = JNum i 0"
    using True by (simp add: makeNumber_def digitsValue_digits)
  then show ?thesis
    using assms by (simp add: parseNumber_def s takeInt_digits takeFraction_def takeExponent_def)
next
  case False
  obtain d ds where ds: "digits (nat i) = d # ds"
    using digits_not_Nil [of "nat i"] by (cases "digits (nat i)") auto
  have "isDigit d" using digits_are_digits [of d "nat i"] ds by simp
  then have "d \<noteq> CHR ''-''" by (rule not_digit_minus)
  with False ds have s: "takeSign (decimal i @ c0 # r) = (False, digits (nat i) @ c0 # r)"
    by (simp add: decimal_def takeSign_def)
  have "makeNumber False (digits (nat i)) [] 0 = JNum i 0"
    using False by (simp add: makeNumber_def digitsValue_digits)
  then show ?thesis
    using assms by (simp add: parseNumber_def s takeInt_digits takeFraction_def takeExponent_def)
qed

lemma decimal_head:
  "\<exists>d ds. decimal i = d # ds \<and> (d = CHR ''-'' \<or> isDigit d)"
proof (cases "i < 0")
  case True
  then show ?thesis by (simp add: decimal_def)
next
  case False
  obtain d ds where ds: "digits (nat i) = d # ds"
    using digits_not_Nil [of "nat i"] by (cases "digits (nat i)") auto
  have "isDigit d" using digits_are_digits [of d "nat i"] ds by simp
  with False ds show ?thesis by (simp add: decimal_def)
qed

lemma parseValue_decimal:
  assumes "\<not> isDigit c0" "c0 \<noteq> CHR ''.''" "c0 \<noteq> CHR ''e''" "c0 \<noteq> CHR ''E''"
  shows "parseValue (Suc n) (decimal i @ c0 # r) = Parsed (JNum i 0) (c0 # r)"
proof -
  obtain d ds where ds: "decimal i = d # ds" and d: "d = CHR ''-'' \<or> isDigit d"
    using decimal_head [of i] by blast
  from d have "d \<noteq> CHR ''[''" "d \<noteq> CHR 0x7B" "d \<noteq> CHR 0x22"
    "d \<noteq> CHR ''t''" "d \<noteq> CHR ''f''" "d \<noteq> CHR ''n''"
    by (auto simp: isDigit_def)
  moreover have "parseNumber (d # ds @ c0 # r) = Some (JNum i 0, c0 # r)"
    using parseNumber_decimal [OF assms, of i r] ds by simp
  ultimately show ?thesis
    by (simp add: ds)
qed

lemma parseMembers_member:
  assumes v: "parseValue m (vtext @ c # cont) = Parsed v (c # cont)"
    and nows: "skipWs (vtext @ c # cont) = vtext @ c # cont"
  shows "parseMembers (Suc m) (quoteJSON k @ CHR '':'' # vtext @ c # cont)
         = (if c = CHR '','' then
              (case parseMembers m (skipWs cont) of
                 Parsed ms rest \<Rightarrow> Parsed ((js k, v) # ms) rest
               | Malformed \<Rightarrow> Malformed
               | OutOfFuel \<Rightarrow> OutOfFuel)
            else if c = CHR 0x7D then Parsed [(js k, v)] cont
            else if isJsonWhiteSpace c then parseMembers (Suc m) (quoteJSON k @ CHR '':'' # vtext @ c # cont)
            else Malformed)"
proof (cases "isJsonWhiteSpace c")
  case True
  then have "c \<noteq> CHR '',''" "c \<noteq> CHR 0x7D"
    by (auto simp: isJsonWhiteSpace_def)
  with True show ?thesis by simp
next
  case False
  have colon: "skipWs (CHR '':'' # vtext @ c # cont) = CHR '':'' # vtext @ c # cont"
    by (rule skipWs_not_ws) (simp add: isJsonWhiteSpace_def)
  have c: "skipWs (c # cont) = c # cont"
    using False by (rule skipWs_not_ws)
  show ?thesis
    using False
    by (simp add: quoteJSON_def parseChars_quoted colon nows v c)
qed

lemma skipWs_quoteJSON: "skipWs (quoteJSON s @ rest) = quoteJSON s @ rest"
  by (simp add: quoteJSON_def skipWs_def isJsonWhiteSpace_def)

lemma skipWs_decimal: "skipWs (decimal i @ rest) = decimal i @ rest"
proof -
  obtain d ds where ds: "decimal i = d # ds" and d: "d = CHR ''-'' \<or> isDigit d"
    using decimal_head [of i] by blast
  from d have "\<not> isJsonWhiteSpace d"
    by (auto simp: isDigit_def isJsonWhiteSpace_def)
  then show ?thesis
    by (simp add: ds skipWs_not_ws)
qed

lemma skipWs_literal:
  "skipWs (''true'' @ rest) = ''true'' @ rest"
  "skipWs (''false'' @ rest) = ''false'' @ rest"
  "skipWs (''null'' @ rest) = ''null'' @ rest"
  by (simp_all add: skipWs_def isJsonWhiteSpace_def)

lemma comma_brace_not_ws:
  "skipWs (CHR '','' # rest) = CHR '','' # rest"
  "skipWs (CHR 0x7D # rest) = CHR 0x7D # rest"
  "skipWs (CHR 0x22 # rest) = CHR 0x22 # rest"
  "skipWs (CHR 0x7B # rest) = CHR 0x7B # rest"
  "skipWs (CHR '']'' # rest) = CHR '']'' # rest"
  by (simp_all add: skipWs_def isJsonWhiteSpace_def)

lemma bool_text:
  "parseValue (Suc n) ((if b then ''true'' else ''false'') @ rest) = Parsed (JBool b) rest"
  "skipWs ((if b then ''true'' else ''false'') @ rest) = (if b then ''true'' else ''false'') @ rest"
  by (cases b; simp add: skipWs_def isJsonWhiteSpace_def)+

lemma comma_not_number_part:
  "\<not> isDigit (CHR '','')" "CHR '','' \<noteq> CHR ''.''" "CHR '','' \<noteq> CHR ''e''" "CHR '','' \<noteq> CHR ''E''"
  by (simp_all add: isDigit_def)

lemma date_text_value:
  "parseValue (Suc n) ((case dd of None \<Rightarrow> ''null'' | Some d \<Rightarrow> quoteJSON (toISOString d)) @ rest)
     = Parsed (case dd of None \<Rightarrow> JNull | Some d \<Rightarrow> JStr (js (toISOString d))) rest"
proof (cases dd)
  case None
  show ?thesis by (simp only: None option.case parseValue_null)
next
  case (Some d)
  show ?thesis by (simp only: Some option.case parseValue_string)
qed

lemma date_text_no_ws:
  "skipWs ((case dd of None \<Rightarrow> ''null'' | Some d \<Rightarrow> quoteJSON (toISOString d)) @ rest)
     = (case dd of None \<Rightarrow> ''null'' | Some d \<Rightarrow> quoteJSON (toISOString d)) @ rest"
proof (cases dd)
  case None
  show ?thesis by (simp only: None option.case skipWs_literal)
next
  case (Some d)
  show ?thesis by (simp only: Some option.case skipWs_quoteJSON)
qed

lemma task_members:
  "parseMembers (Suc (Suc (Suc (Suc (Suc (Suc (Suc (Suc (Suc n)))))))))
           (quoteJSON ''id'' @ CHR '':'' # decimal (task_id t)
            @ CHR '','' # quoteJSON ''text'' @ CHR '':'' # quoteJSON (task_text t)
            @ CHR '','' # quoteJSON ''completed'' @ CHR '':'' # (if completed t then ''true'' else ''false'')
            @ CHR '','' # quoteJSON ''category'' @ CHR '':'' # quoteJSON (category t)
            @ CHR '','' # quoteJSON ''priority'' @ CHR '':'' # quoteJSON (priorityName (priority t))
            @ CHR '','' # quoteJSON ''dueDate'' @ CHR '':''
              # (case dueDate t of None \<Rightarrow> ''null'' | Some d \<Rightarrow> quoteJSON (toISOString d))
            @ CHR '','' # quoteJSON ''description'' @ CHR '':'' # quoteJSON (description t)
            @ CHR '','' # quoteJSON ''expanded'' @ CHR '':'' # (if expanded t then ''true'' else ''false'')
            @ CHR 0x7D # rest)
         = Parsed [(js ''id'', JNum (task_id t) 0),
                   (js ''text'', JStr (js (task_text t))),
                   (js ''completed'', JBool (completed t)),
                   (js ''category'', JStr (js (category t))),
                   (js ''priority'', JStr (js (priorityName (priority t)))),
                   (js ''dueDate'',
                      (case dueDate t of None \<Rightarrow> JNull | Some d \<Rightarrow> JStr (js (toISOString d)))),
                   (js ''description'', JStr (js (description t))),
                   (js ''expanded'', JBool (expanded t))] rest"
  apply (subst parseMembers_member [where v = "JNum (task_id t) 0"])
    apply (rule parseValue_decimal; simp add: isDigit_def)
   apply (rule skipWs_decimal)
  apply (simp only: HOL.simp_thms if_True if_False skipWs_quoteJSON)
  apply (subst parseMembers_member [where v = "JStr (js (task_text t))"])
    apply (rule parseValue_string)
   apply (rule skipWs_quoteJSON)
  apply (simp only: HOL.simp_thms if_True if_False skipWs_quoteJSON)
  apply (subst parseMembers_member [where v = "JBool (completed t)"])
    apply (rule bool_text(1))
   apply (rule bool_text(2))
  apply (simp only: HOL.simp_thms if_True if_False skipWs_quoteJSON)
  apply (subst parseMembers_member [where v = "JStr (js (category t))"])
    apply (rule parseValue_string)
   apply (rule skipWs_quoteJSON)
  apply (simp only: HOL.simp_thms if_True if_False skipWs_quoteJSON)
  apply (subst parseMembers_member [where v = "JStr (js (priorityName (priority t)))"])
    apply (rule parseValue_string)
   apply (rule skipWs_quoteJSON)
  apply (simp only: HOL.simp_thms if_True if_False skipWs_quoteJSON)
  apply (subst parseMembers_member
      [where v = "case dueDate t of None \<Rightarrow> JNull | Some d \<Rightarrow> JStr (js (toISOString d))"])
    apply (rule date_text_value)
   apply (rule date_text_no_ws)
  apply (simp only: HOL.simp_thms if_True if_False skipWs_quoteJSON)
  apply (subst parseMembers_member [where v = "JStr (js (description t))"])
    apply (rule parseValue_string)
   apply (rule skipWs_quoteJSON)
  apply (simp only: HOL.simp_thms if_True if_False skipWs_quoteJSON)
  apply (subst parseMembers_member [where v = "JBool (expanded t)"])
    apply (rule bool_text(1))
   apply (rule bool_text(2))
  apply simp
  done

lemma parseValue_object:
  assumes "parseMembers m (quoteJSON k @ r) = Parsed ms rest"
  shows "parseValue (Suc m) (CHR 0x7B # quoteJSON k @ r)
         = Parsed (JObj (foldl (\<lambda>acc (k, v). putMember k v acc) [] ms)) rest"
proof -
  have "skipWs (quoteJSON k @ r) = CHR 0x22 # concat (map quoteJSONChar k) @ CHR 0x22 # r"
    by (simp add: skipWs_quoteJSON) (simp add: quoteJSON_def)
  moreover have "parseMembers m (CHR 0x22 # concat (map quoteJSONChar k) @ CHR 0x22 # r)
                 = Parsed ms rest"
    using assms by (simp add: quoteJSON_def)
  ultimately show ?thesis by simp
qed

lemma js_eq_iff: "js a = js b \<longleftrightarrow> a = b"
proof -
  have "inj (of_char :: char \<Rightarrow> nat)"
    by (rule injI) simp
  then show ?thesis
    by (simp add: js_def inj_map_eq_map)
qed

lemma stringifyTask_text:
  "stringifyTask t @ rest
         = CHR 0x7B # quoteJSON ''id'' @ CHR '':'' # decimal (task_id t)
            @ CHR '','' # quoteJSON ''text'' @ CHR '':'' # quoteJSON (task_text t)
            @ CHR '','' # quoteJSON ''completed'' @ CHR '':'' # (if completed t then ''true'' else ''false'')
            @ CHR '','' # quoteJSON ''category'' @ CHR '':'' # quoteJSON (category t)
            @ CHR '','' # quoteJSON ''priority'' @ CHR '':'' # quoteJSON (priorityName (priority t))
            @ CHR '','' # quoteJSON ''dueDate'' @ CHR '':''
              # (case dueDate t of None \<Rightarrow> ''null'' | Some d \<Rightarrow> quoteJSON (toISOString d))
            @ CHR '','' # quoteJSON ''description'' @ CHR '':'' # quoteJSON (description t)
            @ CHR '','' # quoteJSON ''expanded'' @ CHR '':'' # (if expanded t then ''true'' else ''false'')
            @ CHR 0x7D # rest"
  by (simp add: stringifyTask_def)

lemma loaded_task_members:
  "JObj (foldl (\<lambda>acc (k, v). putMember k v acc) []
           [(js ''id'', JNum (task_id t) 0),
            (js ''text'', JStr (js (task_text t))),
            (js ''completed'', JBool (completed t)),
            (js ''category'', JStr (js (category t))),
            (js ''priority'', JStr (js (priorityName (priority t)))),
            (js ''dueDate'',
               (case dueDate t of None \<Rightarrow> JNull | Some d \<Rightarrow> JStr (js (toISOString d)))),
            (js ''description'', JStr (js (description t))),
            (js ''expanded'', JBool (expanded t))])
         = task_val_with (\<lambda>d. JStr (js (toISOString d))) t"
  by (simp add: task_val_with_def js_eq_iff)

lemma parseValue_task:
  assumes "10 \<le> m"
  shows "parseValue m (stringifyTask t @ rest)
         = Parsed (task_val_with (\<lambda>d. JStr (js (toISOString d))) t) rest"
proof -
  from assms
  have m: "m = Suc (Suc (Suc (Suc (Suc (Suc (Suc (Suc (Suc (Suc (m - 10))))))))))"
    by simp
  have "parseValue (Suc (Suc (Suc (Suc (Suc (Suc (Suc (Suc (Suc (Suc (m - 10)))))))))))
          (stringifyTask t @ rest) = Parsed (task_val_with (\<lambda>d. JStr (js (toISOString d))) t) rest"
    unfolding stringifyTask_text loaded_task_members [symmetric]
    apply (rule parseValue_object)
    apply (rule task_members)
    done
  with m show ?thesis by simp
qed

lemma stringifyTask_head: "\<exists>r. stringifyTask t = CHR 0x7B # r"
  by (simp add: stringifyTask_def)

lemma join_head:
  assumes "ts \<noteq> []"
  shows "\<exists>r. join '','' (map stringifyTask ts) = CHR 0x7B # r"
proof (cases ts)
  case Nil
  with assms show ?thesis by simp
next
  case (Cons t ts')
  obtain r where r: "stringifyTask t = CHR 0x7B # r"
    using stringifyTask_head by blast
  show ?thesis
    by (cases ts') (simp_all add: Cons r)
qed

lemma parseElements_tasks:
  assumes "ts \<noteq> []" "length ts + 10 \<le> n"
  shows "parseElements n (join '','' (map stringifyTask ts) @ CHR '']'' # rest)
         = Parsed (map (task_val_with (\<lambda>d. JStr (js (toISOString d)))) ts) rest"
  using assms
proof (induction ts arbitrary: n rule: list_nonempty_induct)
  case (single t)
  then obtain n' where n: "n = Suc n'" and n': "10 \<le> n'"
    by (cases n) auto
  show ?case
    by (simp add: n parseValue_task [OF n'] comma_brace_not_ws)
next
  case (cons t ts)
  then obtain n' where n: "n = Suc n'" and n': "10 \<le> n'" "length ts + 10 \<le> n'"
    by (cases n) auto
  obtain t' ts' where ts: "ts = t' # ts'"
    using cons.hyps by (cases ts) auto
  obtain r where r: "join '','' (map stringifyTask ts) = CHR 0x7B # r"
    using join_head [OF cons.hyps] by blast
  have j: "join '','' (map stringifyTask (t # ts)) @ CHR '']'' # rest
           = stringifyTask t @ CHR '','' # (join '','' (map stringifyTask ts) @ CHR '']'' # rest)"
    by (simp add: ts)
  have sk: "skipWs (join '','' (map stringifyTask ts) @ CHR '']'' # rest)
            = join '','' (map stringifyTask ts) @ CHR '']'' # rest"
    by (simp add: r comma_brace_not_ws)
  show ?case
    unfolding j n
    by (simp add: parseValue_task [OF n'(1)] comma_brace_not_ws sk cons.IH [OF n'(2)])
qed

lemma length_stringifyTask: "10 \<le> length (stringifyTask t)"
  by (simp add: stringifyTask_def quoteJSON_def)

lemma length_join:
  assumes "\<forall>x \<in> set xs. 10 \<le> length x"
  shows "10 * length xs \<le> length (join sep xs)"
  using assms by (induction sep xs rule: join.induct) auto

text \<open>
  Saving and then loading gives, for every collection, the objects of its tasks in
  order, each with the ISO string of its due date where the store held the
  \<open>Date\<close>; the loaded collection is the saved one exactly when no task has a due
  date.
\<close>

lemma save_then_load:
  "load_tasks (save_tasks ts)
   = Inr (JArr (map (task_val_with (\<lambda>d. JStr (js (toISOString d)))) ts))"
proof (cases "ts = []")
  case True
  have "JSON_parse ''[]'' = Inr (JArr [])"
    by code_simp
  with True show ?thesis
    by (simp add: load_tasks_def save_tasks_def JSON_stringify_def)
next
  case False
  let ?body = "join '','' (map stringifyTask ts)"
  let ?loaded = "map (task_val_with (\<lambda>d. JStr (js (toISOString d)))) ts"
  obtain r where r: "?body = CHR 0x7B # r"
    using join_head [OF False] by blast
  have l1: "10 * length ts \<le> length ?body"
    using length_join [of "map stringifyTask ts" "'',''"] by (simp add: length_stringifyTask)
  have l2: "1 \<le> length ts"
    using False by (cases ts) simp_all
  have l3: "length (JSON_stringify ts) = length ?body + 2"
    by (simp add: JSON_stringify_def)
  from l1 l2 l3 have fuel: "length ts + 10 \<le> 2 * length (JSON_stringify ts)"
    by linarith
  have el: "parseElements (2 * length (JSON_stringify ts)) (?body @ CHR '']'' # [])
            = Parsed ?loaded []"
    using False fuel by (rule parseElements_tasks)
  have "parseValue (Suc (2 * length (JSON_stringify ts))) (skipWs (JSON_stringify ts))
        = Parsed (JArr ?loaded) []"
  proof -
    have "skipWs (JSON_stringify ts) = CHR ''['' # ?body @ [CHR '']'']"
      by (simp add: JSON_stringify_def skipWs_def isJsonWhiteSpace_def)
    moreover have "skipWs (?body @ [CHR '']'']) = CHR 0x7B # r @ [CHR '']'']"
      by (simp add: r comma_brace_not_ws)
    moreover have "parseElements (2 * length (JSON_stringify ts)) (CHR 0x7B # r @ [CHR '']''])
                   = Parsed ?loaded []"
      using el by (simp add: r)
    ultimately show ?thesis by simp
  qed
  then have "JSON_parse (JSON_stringify ts) = Inr (JArr ?loaded)"
    by (simp add: JSON_parse_def skipWs_def)
  moreover have "JSON_stringify ts \<noteq> []"
    by (simp add: JSON_stringify_def)
  ultimately show ?thesis
    by (simp add: load_tasks_def save_tasks_def)
qed

lemma task_val_with_eq_iff:
  "task_val_with f t = task_val_with g t \<longleftrightarrow> (case dueDate t of None \<Rightarrow> True | Some d \<Rightarrow> f d = g d)"
  by (simp add: task_val_with_def split: option.split)

lemma save_then_load_same_iff:
  "load_tasks (save_tasks ts) = Inr (JArr (map task_val ts))
   \<longleftrightarrow> (\<forall>t \<in> set ts. dueDate t = None)"
proof -
  have "map (task_val_with (\<lambda>d. JStr (js (toISOString d)))) ts = map task_val ts
        \<longleftrightarrow> (\<forall>t \<in> set ts. dueDate t = None)"
    by (auto simp: task_val_def task_val_with_eq_iff split: option.splits)
  then show ?thesis
    by (simp add: save_then_load)
qed


section \<open>Loading and saving\<close>

text \<open>\<open>JSON.parse\<close> throws exactly on the texts that are not one JSON value.\<close>

lemma JSON_parse_SyntaxError_iff:
  "JSON_parse s = Inl SyntaxError \<longleftrightarrow>
     parseValue (2 * length s + 1) (skipWs s) = Malformed
     \<or> (\<exists>v rest. parseValue (2 * length s + 1) (skipWs s) = Parsed v rest \<and> skipWs rest \<noteq> [])"
  using JSON_parse_fuel [of s]
  by (cases "parseValue (2 * length s + 1) (skipWs s)") (auto simp: JSON_parse_def)

text \<open>
  C4, as the code behaves. An item that is absent or the empty string loads as the empty
  collection, and as the light theme. Any other item is handed to \<open>JSON.parse\<close>: what
  it returns is the loaded value, and the \<open>SyntaxError\<close> it throws on a text that is
  not JSON is the outcome of the load and of the startup.
\<close>

theorem load_persisted_items:
  "load_tasks None = Inr (JArr [])
   \<and> load_tasks (Some []) = Inr (JArr [])
   \<and> load_theme None = Inr (JBool False)
   \<and> load_theme (Some []) = Inr (JBool False)
   \<and> startup None None = Inr (JBool False, JArr [])
   \<and> (s \<noteq> [] \<longrightarrow> load_tasks (Some s) = JSON_parse s \<and> load_theme (Some s) = JSON_parse s)
   \<and> (s \<noteq> [] \<and> JSON_parse s = Inl e \<longrightarrow>
        load_tasks (Some s) = Inl e \<and> load_theme (Some s) = Inl e
        \<and> startup None (Some s) = Inl e \<and> startup (Some s) saved = Inl e)"
  by (simp add: load_tasks_def load_theme_def startup_def)

theorem load_persisted_items_witness:
  "load_tasks (Some ''[]'') = Inr (JArr [])
   \<and> load_theme (Some ''true'') = Inr (JBool True)
   \<and> load_tasks (Some ''[1,'') = Inl SyntaxError
   \<and> startup (Some ''[1,'') None = Inl SyntaxError"
proof -
  have a: "JSON_parse ''[]'' = Inr (JArr [])" by code_simp
  have b: "JSON_parse ''true'' = Inr (JBool True)" by code_simp
  have c: "JSON_parse ''[1,'' = Inl SyntaxError" by code_simp
  from load_persisted_items [of "''[]''"] a have "load_tasks (Some ''[]'') = Inr (JArr [])"
    by simp
  moreover from load_persisted_items [of "''true''"] b
  have "load_theme (Some ''true'') = Inr (JBool True)"
    by simp
  moreover from load_persisted_items [of "''[1,''" SyntaxError None] c
  have "load_tasks (Some ''[1,'') = Inl SyntaxError \<and> startup (Some ''[1,'') None = Inl SyntaxError"
    by simp
  ultimately show ?thesis by simp
qed

text \<open>
  A stored text that is not JSON: the load of the tasks, the load of the theme and the
  startup end in the \<open>SyntaxError\<close>.
\<close>

theorem load_malformed_item_throws:
  "load_tasks (Some ''{'') = Inl SyntaxError
   \<and> load_theme (Some ''dark'') = Inl SyntaxError
   \<and> startup None (Some ''{'') = Inl SyntaxError
   \<and> startup (Some ''dark'') None = Inl SyntaxError"
  by code_simp

text \<open>
  C2. A task with a due date does not come back as it was saved: the saved text holds
  the date as an ISO string, and the load returns that string where the store held a
  \<open>Date\<close>. A task without a due date comes back as it was.
\<close>

theorem save_then_load_task_with_due_date:
  "load_tasks (save_tasks
      [\<lparr> task_id = 1, task_text = ''Buy milk'', completed = False, category = ''Shopping'',
         priority = High, dueDate = Some 0, description = [], expanded = False \<rparr>])
     \<noteq> Inr (JArr (map task_val
      [\<lparr> task_id = 1, task_text = ''Buy milk'', completed = False, category = ''Shopping'',
         priority = High, dueDate = Some 0, description = [], expanded = False \<rparr>]))
   \<and> load_tasks (save_tasks
      [\<lparr> task_id = 1, task_text = ''Buy milk'', completed = False, category = ''Shopping'',
         priority = High, dueDate = Some 0, description = [], expanded = False \<rparr>])
     = Inr (JArr [JObj [(js ''id'', JNum 1 0),
                        (js ''text'', JStr (js ''Buy milk'')),
                        (js ''completed'', JBool False),
                        (js ''category'', JStr (js ''Shopping'')),
                        (js ''priority'', JStr (js ''High'')),
                        (js ''dueDate'', JStr (js ''1970-01-01T00:00:00.000Z'')),
                        (js ''description'', JStr (js [])),
                        (js ''expanded'', JBool False)]])
   \<and> task_val
      \<lparr> task_id = 1, task_text = ''Buy milk'', completed = False, category = ''Shopping'',
        priority = High, dueDate = Some 0, description = [], expanded = False \<rparr>
     = JObj [(js ''id'', JNum 1 0),
             (js ''text'', JStr (js ''Buy milk'')),
             (js ''completed'', JBool False),
             (js ''category'', JStr (js ''Shopping'')),
             (js ''priority'', JStr (js ''High'')),
             (js ''dueDate'', JDate 0),
             (js ''description'', JStr (js [])),
             (js ''expanded'', JBool False)]
   \<and> load_tasks (save_tasks
      [\<lparr> task_id = 1, task_text = ''Buy milk'', completed = False, category = ''Shopping'',
         priority = High, dueDate = None, description = [], expanded = False \<rparr>])
     = Inr (JArr (map task_val
      [\<lparr> task_id = 1, task_text = ''Buy milk'', completed = False, category = ''Shopping'',
         priority = High, dueDate = None, description = [], expanded = False \<rparr>]))"
  by code_simp

end
